theory Spec2Isabelle
  imports Main "HOL-Library.Word"
begin

section \<open>Strings, bytes and the platform's resources\<close>

text \<open>
  A JavaScript string is modelled as a \<^typ>\<open>string\<close>: a list of code units. The
  functions below only compare code units with each other and with ASCII and Latin-1
  literals, so the 8-bit range of \<^typ>\<open>char\<close> is enough for them. A byte of a
  \<open>Uint8Array\<close> or of a file is an \<^typ>\<open>8 word\<close>.
\<close>

type_synonym byte = "8 word"

text \<open>\<open>s.startsWith(t)\<close>, \<open>s.includes(t)\<close> and \<open>s.endsWith(t)\<close>.\<close>

fun startsWith :: "string \<Rightarrow> string \<Rightarrow> bool" where
  "startsWith s [] = True"
| "startsWith [] (c # cs) = False"
| "startsWith (x # xs) (c # cs) = (x = c \<and> startsWith xs cs)"

fun includes_str :: "string \<Rightarrow> string \<Rightarrow> bool" where
  "includes_str [] t = (t = [])"
| "includes_str (x # xs) t = (startsWith (x # xs) t \<or> includes_str xs t)"

definition endsWith :: "string \<Rightarrow> string \<Rightarrow> bool" where
  "endsWith s t = startsWith (rev s) (rev t)"

text \<open>\<open>s.substring(0, n)\<close>.\<close>

definition substring0 :: "nat \<Rightarrow> string \<Rightarrow> string" where
  "substring0 n s = take n s"

text \<open>\<open>s.substr(start, len)\<close> for a start inside the non-negative range.\<close>

definition substr :: "nat \<Rightarrow> nat \<Rightarrow> string \<Rightarrow> string" where
  "substr start len s = take len (drop start s)"

text \<open>
  \<open>s.split(',')\<close>: the pieces between commas; the empty string gives one empty piece.
\<close>

fun split_comma :: "string \<Rightarrow> string list" where
  "split_comma [] = [[]]"
| "split_comma (c # cs) =
     (if c = CHR '','' then [] # split_comma cs
      else (case split_comma cs of
              [] \<Rightarrow> [[c]]
            | p # ps \<Rightarrow> (c # p) # ps))"

text \<open>\<open>xs[i]\<close> on an array: \<open>undefined\<close> (here \<open>None\<close>) out of range.\<close>

fun index_opt :: "'a list \<Rightarrow> nat \<Rightarrow> 'a option" where
  "index_opt [] i = None"
| "index_opt (x # xs) 0 = Some x"
| "index_opt (x # xs) (Suc i) = index_opt xs i"

text \<open>
  Truthiness of an optional string (\<open>undefined\<close> and \<open>''\<close> are falsy) and of an
  optional boolean, and \<open>a || b\<close> on strings.
\<close>

fun truthy :: "string option \<Rightarrow> bool" where
  "truthy None = False"
| "truthy (Some s) = (s \<noteq> [])"

fun truthy_flag :: "bool option \<Rightarrow> bool" where
  "truthy_flag None = False"
| "truthy_flag (Some b) = b"

definition or_else :: "string option \<Rightarrow> string \<Rightarrow> string" where
  "or_else a b = (case a of None \<Rightarrow> b | Some s \<Rightarrow> if s = [] then b else s)"

text \<open>
  A \<open>Blob\<close> is its bytes and its type. \<open>new Blob([s], {type})\<close> for a string
  \<open>s\<close> holds the UTF-8 encoding of \<open>s\<close>; for code units below 256 that is one byte
  below 128 and two bytes from there on (a string with a code unit above 255 is not a
  value of this model). The constructor puts the type in ASCII lower case, and makes it
  empty when it has a character outside U+0020 to U+007E.
  \<open>URL.createObjectURL(blob)\<close> returns a handle that resolves to the blob: the model
  keeps the blob itself as the handle.
\<close>

record Blob =
  blob_bytes :: "byte list"
  blob_type :: string

definition utf8_unit :: "char \<Rightarrow> byte list" where
  "utf8_unit c =
     (let n = (of_char c :: nat)
      in if n < 128 then [of_nat n]
         else [of_nat (192 + n div 64), of_nat (128 + n mod 64)])"

definition utf8_encode :: "string \<Rightarrow> byte list" where
  "utf8_encode s = concat (map utf8_unit s)"

definition ascii_lowercase :: "char \<Rightarrow> char" where
  "ascii_lowercase c =
     (let n = (of_char c :: nat)
      in if 65 \<le> n \<and> n \<le> 90 then char_of (n + 32) else c)"

definition blob_type_of :: "string \<Rightarrow> string" where
  "blob_type_of ty =
     (if list_all (\<lambda>c. 32 \<le> (of_char c :: nat) \<and> (of_char c :: nat) \<le> 126) ty
      then map ascii_lowercase ty else [])"

definition blob_of_string :: "string \<Rightarrow> string \<Rightarrow> Blob" where
  "blob_of_string s ty = \<lparr>blob_bytes = utf8_encode s, blob_type = blob_type_of ty\<rparr>"

definition blob_of_bytes :: "byte list \<Rightarrow> string \<Rightarrow> Blob" where
  "blob_of_bytes bs ty = \<lparr>blob_bytes = bs, blob_type = blob_type_of ty\<rparr>"

datatype error =
    InvalidCharacterError
  | SyntaxError
  | QuotaExceededError
  | NotReadableError

section \<open>The data model (types.ts)\<close>

record PreviewFile =
  id_pf :: string
  name_pf :: string
  type_pf :: string
  size_pf :: nat
  url_pf :: "Blob option"
  content_pf :: "string option"
  summary_pf :: "string option"
  isSummarizing_pf :: "bool option"

text \<open>
  A \<open>File\<close> handed over by the browser: its metadata, its bytes, the string that
  \<open>file.text()\<close> resolves to (the platform's UTF-8 decoding of the bytes), and whether
  reading it succeeds (a read that fails rejects the promise).
\<close>

record File =
  name_file :: string
  type_file :: string
  size_file :: nat
  bytes_file :: "byte list"
  text_file :: string
  readable_file :: bool

section \<open>Base64 (\<open>FileReader.readAsDataURL\<close> and \<open>atob\<close>)\<close>

text \<open>The base64 alphabet: the character of a sextet and the sextet of a character.\<close>

definition b64_char :: "nat \<Rightarrow> char" where
  "b64_char i =
     (if i < 26 then char_of (65 + i)
      else if i < 52 then char_of (71 + i)
      else if i < 62 then char_of (i - 4)
      else if i = 62 then CHR ''+''
      else CHR ''/'')"

definition b64_value :: "char \<Rightarrow> nat option" where
  "b64_value c =
     (let n = (of_char c :: nat)
      in if 65 \<le> n \<and> n \<le> 90 then Some (n - 65)
         else if 97 \<le> n \<and> n \<le> 122 then Some (n - 71)
         else if 48 \<le> n \<and> n \<le> 57 then Some (n + 4)
         else if n = 43 then Some 62
         else if n = 47 then Some 63
         else None)"

text \<open>Base64 with padding, three bytes to four characters.\<close>

fun base64 :: "byte list \<Rightarrow> string" where
  "base64 [] = []"
| "base64 [a] =
     (let n = unat a * 65536
      in [b64_char (n div 262144), b64_char (n div 4096 mod 64), CHR ''='', CHR ''=''])"
| "base64 [a, b] =
     (let n = unat a * 65536 + unat b * 256
      in [b64_char (n div 262144), b64_char (n div 4096 mod 64),
          b64_char (n div 64 mod 64), CHR ''=''])"
| "base64 (a # b # c # rest) =
     (let n = unat a * 65536 + unat b * 256 + unat c
      in [b64_char (n div 262144), b64_char (n div 4096 mod 64),
          b64_char (n div 64 mod 64), b64_char (n mod 64)] @ base64 rest)"

text \<open>
  The two parts of \<open>base64\<close>, for the proofs: the sextets that the bytes are cut
  into, and the padding.
\<close>

fun sextets :: "byte list \<Rightarrow> nat list" where
  "sextets [] = []"
| "sextets [a] =
     (let n = unat a * 65536 in [n div 262144, n div 4096 mod 64])"
| "sextets [a, b] =
     (let n = unat a * 65536 + unat b * 256
      in [n div 262144, n div 4096 mod 64, n div 64 mod 64])"
| "sextets (a # b # c # rest) =
     (let n = unat a * 65536 + unat b * 256 + unat c
      in [n div 262144, n div 4096 mod 64, n div 64 mod 64, n mod 64] @ sextets rest)"

fun padding :: "byte list \<Rightarrow> string" where
  "padding [] = []"
| "padding [a] = ''==''"
| "padding [a, b] = ''=''"
| "padding (a # b # c # rest) = padding rest"

text \<open>
  \<open>reader.readAsDataURL(file)\<close>: the data URL of the file's bytes. A file with no
  declared type is given \<open>application/octet-stream\<close>.
\<close>

definition readAsDataURL :: "string \<Rightarrow> byte list \<Rightarrow> string" where
  "readAsDataURL ty bs =
     ''data:'' @ (if ty = [] then ''application/octet-stream'' else ty) @ '';base64,''
       @ base64 bs"

text \<open>
  \<open>atob\<close>, the forgiving base64 decoder: ASCII whitespace is removed, one or two
  \<open>=\<close> are dropped from the end of a string whose length is a multiple of four, a
  length of one more than a multiple of four or a character outside the alphabet raises
  \<open>InvalidCharacterError\<close>, and the sextets are packed into bytes, the bits left over
  in the last group discarded. The result is a binary string, one code unit per byte.
\<close>

definition ascii_whitespace :: "char \<Rightarrow> bool" where
  "ascii_whitespace c = ((of_char c :: nat) \<in> {9, 10, 12, 13, 32})"

definition strip_padding :: "string \<Rightarrow> string" where
  "strip_padding d =
     (if length d mod 4 = 0 then
        (if endsWith d ''=='' then butlast (butlast d)
         else if endsWith d ''='' then butlast d
         else d)
      else d)"

fun pack_sextets :: "nat list \<Rightarrow> string" where
  "pack_sextets (a # b # c # d # rest) =
     (let n = ((a * 64 + b) * 64 + c) * 64 + d
      in [char_of (n div 65536), char_of (n div 256 mod 256), char_of (n mod 256)]
           @ pack_sextets rest)"
| "pack_sextets [a, b, c] =
     (let n = ((a * 64 + b) * 64 + c) div 4
      in [char_of (n div 256), char_of (n mod 256)])"
| "pack_sextets [a, b] = [char_of ((a * 64 + b) div 16)]"
| "pack_sextets [a] = []"
| "pack_sextets [] = []"

definition atob :: "string \<Rightarrow> error + string" where
  "atob s =
     (let d = strip_padding (filter (\<lambda>c. \<not> ascii_whitespace c) s)
      in if length d mod 4 = 1 then Inl InvalidCharacterError
         else (case those (map b64_value d) of
                 None \<Rightarrow> Inl InvalidCharacterError
               | Some vs \<Rightarrow> Inr (pack_sextets vs)))"

section \<open>Ingestion (\<open>handleFiles\<close>, App.tsx)\<close>

text \<open>The test that sends a file down the text branch of \<open>handleFiles\<close>.\<close>

definition isTextFile :: "File \<Rightarrow> bool" where
  "isTextFile file =
     (endsWith (name_file file) ''.md'' \<or> endsWith (name_file file) ''.txt''
      \<or> endsWith (name_file file) ''.xml'' \<or> includes_str (type_file file) ''text''
      \<or> includes_str (type_file file) ''markdown'')"

text \<open>\<open>fileToBase64\<close>: resolves to the data URL, rejects when the read fails.\<close>

definition fileToBase64 :: "File \<Rightarrow> error + string" where
  "fileToBase64 file =
     (if readable_file file then Inr (readAsDataURL (type_file file) (bytes_file file))
      else Inl NotReadableError)"

definition file_text :: "File \<Rightarrow> error + string" where
  "file_text file =
     (if readable_file file then Inr (text_file file) else Inl NotReadableError)"

text \<open>
  A \<open>File\<close> is a blob already: \<open>URL.createObjectURL(file)\<close> resolves to its bytes
  under its own type.
\<close>

definition blob_of_file :: "File \<Rightarrow> Blob" where
  "blob_of_file file = \<lparr>blob_bytes = bytes_file file, blob_type = type_file file\<rparr>"

text \<open>
  The body of the callback mapped over the batch. \<open>r\<close> is what
  \<open>Math.random().toString(36)\<close> gave for this file.
\<close>

definition processFile :: "string \<Rightarrow> File \<Rightarrow> error + PreviewFile" where
  "processFile r file =
     (let ident = substr 2 9 r;
          url = blob_of_file file
      in case (if isTextFile file then file_text file else fileToBase64 file) of
           Inl e \<Rightarrow> Inl e
         | Inr content \<Rightarrow>
             Inr \<lparr>id_pf = ident, name_pf = name_file file,
                  type_pf = (if type_file file = [] then ''application/octet-stream''
                             else type_file file),
                  size_pf = size_file file, url_pf = Some url,
                  content_pf = Some content, summary_pf = None,
                  isSummarizing_pf = None\<rparr>)"

text \<open>\<open>Promise.all\<close>: every result in order, or the rejection.\<close>

fun promise_all :: "(error + 'a) list \<Rightarrow> error + 'a list" where
  "promise_all [] = Inr []"
| "promise_all (Inl e # rs) = Inl e"
| "promise_all (Inr x # rs) =
     (case promise_all rs of Inl e \<Rightarrow> Inl e | Inr xs \<Rightarrow> Inr (x # xs))"

text \<open>
  \<open>handleFiles\<close>. \<open>rand i\<close> is the \<open>i\<close>-th draw of \<open>Math.random().toString(36)\<close>
  during the call, \<open>newFiles\<close> the \<open>FileList\<close> or \<open>null\<close>, \<open>prev\<close> the registry.
  The result is the registry after \<open>setFiles\<close>, or the rejection that leaves it as it
  was.
\<close>

definition processedFiles :: "(nat \<Rightarrow> string) \<Rightarrow> File list \<Rightarrow> error + PreviewFile list" where
  "processedFiles rand fileList =
     promise_all (map (\<lambda>(i, file). processFile (rand i) file)
                      (zip [0 ..< length fileList] fileList))"

definition handleFiles ::
  "(nat \<Rightarrow> string) \<Rightarrow> File list option \<Rightarrow> PreviewFile list \<Rightarrow> error + PreviewFile list" where
  "handleFiles rand newFiles prev =
     (case newFiles of
        None \<Rightarrow> Inr prev
      | Some fileList \<Rightarrow>
          (case processedFiles rand fileList of
             Inl e \<Rightarrow> Inl e
           | Inr processed \<Rightarrow> Inr (prev @ processed)))"

text \<open>\<open>removeFile\<close>.\<close>

definition removeFile :: "string \<Rightarrow> PreviewFile list \<Rightarrow> PreviewFile list" where
  "removeFile ident prev = filter (\<lambda>f. id_pf f \<noteq> ident) prev"

section \<open>Rendering (\<open>renderContent\<close>, PreviewCard)\<close>

datatype viewMode = Preview | Summary

datatype rendering =
    SummarySpinner
  | SummaryText string
  | PdfFrame "Blob option"
  | MarkdownView string
  | TextBlock "string option"
  | PptxPlaceholder "Blob option"
  | NoPreview

definition no_summary_text :: string where
  "no_summary_text =
     ''Nenhum resumo dispon'' @ [CHR 0xED] @ ''vel. Clique no bot'' @ [CHR 0xE3]
     @ ''o de IA para gerar.''"

fun is_summary_rendering :: "rendering \<Rightarrow> bool" where
  "is_summary_rendering SummarySpinner = True"
| "is_summary_rendering (SummaryText s) = True"
| "is_summary_rendering r = False"

definition renderContent :: "PreviewFile \<Rightarrow> viewMode \<Rightarrow> rendering" where
  "renderContent file mode =
     (if mode = Summary then
        (if truthy_flag (isSummarizing_pf file) then SummarySpinner
         else SummaryText (or_else (summary_pf file) no_summary_text))
      else if includes_str (type_pf file) ''pdf'' then PdfFrame (url_pf file)
      else if endsWith (name_pf file) ''.md'' \<or> includes_str (type_pf file) ''markdown''
        then MarkdownView (or_else (content_pf file) [])
      else if includes_str (type_pf file) ''xml'' \<or> includes_str (type_pf file) ''text''
        then TextBlock (content_pf file)
      else if endsWith (name_pf file) ''.pptx'' then PptxPlaceholder (url_pf file)
      else NoPreview)"

text \<open>The card offers \<open>Gerar IA\<close> only under this condition.\<close>

definition offersSummarize :: "PreviewFile \<Rightarrow> bool" where
  "offersSummarize file =
     (\<not> truthy (summary_pf file) \<and> \<not> truthy_flag (isSummarizing_pf file))"

section \<open>Summarization (\<open>summarizeDocument\<close>, \<open>handleSummarize\<close>)\<close>

text \<open>
  What \<open>ai.models.generateContent\<close> does with a request: it throws, or it answers
  with a response whose \<open>text\<close> may be missing.
\<close>

datatype remote_outcome = Throws | Responds "string option"

text \<open>
  The \<open>contents\<close> of the request: the template, which ends where the text is
  spliced in, and the first 5000 code units of the text.
\<close>

definition prompt_head :: "string \<Rightarrow> string" where
  "prompt_head fileName =
     ''Por favor, resuma o conte'' @ [CHR 0xFA] @ ''do do seguinte documento ''
     @ [CHR 0x22] @ fileName @ [CHR 0x22] @ ''. '' @ [CHR 0x0A]
     @ ''      Foque nos pontos principais e seja conciso. Se o conte'' @ [CHR 0xFA]
     @ ''do parecer ser um c'' @ [CHR 0xF3]
     @ ''digo XML ou Markdown, explique o que ele faz.'' @ [CHR 0x0A]
     @ ''      '' @ [CHR 0x0A]
     @ ''      Conte'' @ [CHR 0xFA] @ ''do:'' @ [CHR 0x0A]
     @ ''      ''"

definition contents_of :: "string \<Rightarrow> string \<Rightarrow> string" where
  "contents_of fileName content = prompt_head fileName @ substring0 5000 content"

definition summary_error :: string where
  "summary_error = ''Erro ao processar o resumo com a IA.''"

definition summary_empty :: string where
  "summary_empty =
     ''N'' @ [CHR 0xE3] @ ''o foi poss'' @ [CHR 0xED] @ ''vel gerar um resumo.''"

definition summarizeDocument ::
  "(string \<Rightarrow> remote_outcome) \<Rightarrow> string \<Rightarrow> string \<Rightarrow> string" where
  "summarizeDocument generateContent fileName content =
     (case generateContent (contents_of fileName content) of
        Throws \<Rightarrow> summary_error
      | Responds t \<Rightarrow> or_else t summary_empty)"

definition textToSummarize :: "PreviewFile \<Rightarrow> string" where
  "textToSummarize file =
     (if includes_str (type_pf file) ''pdf'' then ''Documento PDF: '' @ name_pf file
      else or_else (content_pf file) (name_pf file))"

text \<open>The two \<open>setFiles\<close> updates of \<open>handleSummarize\<close>.\<close>

definition markSummarizing :: "PreviewFile \<Rightarrow> PreviewFile list \<Rightarrow> PreviewFile list" where
  "markSummarizing file prev =
     map (\<lambda>f. if id_pf f = id_pf file then f\<lparr>isSummarizing_pf := Some True\<rparr> else f) prev"

definition storeSummary :: "PreviewFile \<Rightarrow> string \<Rightarrow> PreviewFile list \<Rightarrow> PreviewFile list" where
  "storeSummary file summary prev =
     map (\<lambda>f. if id_pf f = id_pf file
              then f\<lparr>summary_pf := Some summary, isSummarizing_pf := Some False\<rparr>
              else f) prev"

section \<open>The session store (the two effects of App.tsx)\<close>

text \<open>What the save effect keeps of a record: \<open>({ url, ...rest }) => rest\<close>.\<close>

record SavedFile =
  id_sf :: string
  name_sf :: string
  type_sf :: string
  size_sf :: nat
  content_sf :: "string option"
  summary_sf :: "string option"
  isSummarizing_sf :: "bool option"

definition rest_of :: "PreviewFile \<Rightarrow> SavedFile" where
  "rest_of f =
     \<lparr>id_sf = id_pf f, name_sf = name_pf f, type_sf = type_pf f, size_sf = size_pf f,
      content_sf = content_pf f, summary_sf = summary_pf f,
      isSummarizing_sf = isSummarizing_pf f\<rparr>"

text \<open>
  The string under \<open>STORAGE_KEY\<close> is either \<open>JSON.stringify\<close> of a list of saved
  records, which \<open>JSON.parse\<close> reads back as the same records with no \<open>url\<close>, or a
  string that \<open>JSON.parse\<close> rejects.
\<close>

datatype stored = Serialized "SavedFile list" | Unparseable string

definition parsed_file :: "SavedFile \<Rightarrow> PreviewFile" where
  "parsed_file s =
     \<lparr>id_pf = id_sf s, name_pf = name_sf s, type_pf = type_sf s, size_pf = size_sf s,
      url_pf = None, content_pf = content_sf s, summary_pf = summary_sf s,
      isSummarizing_pf = isSummarizing_sf s\<rparr>"

fun JSON_parse :: "stored \<Rightarrow> error + PreviewFile list" where
  "JSON_parse (Serialized ss) = Inr (map parsed_file ss)"
| "JSON_parse (Unparseable s) = Inl SyntaxError"

text \<open>
  \<open>localStorage\<close>, reduced to the one key: the item, and a log of the payloads
  \<open>setItem\<close> was called with. \<open>setItem\<close> replaces the item, or raises
  \<open>QuotaExceededError\<close> and leaves it as it was; \<open>quota_ok\<close> says which payloads
  the backing store has room for.
\<close>

record Storage =
  item :: "stored option"
  setItem_calls :: "SavedFile list list"

definition setItem ::
  "(SavedFile list \<Rightarrow> bool) \<Rightarrow> SavedFile list \<Rightarrow> Storage \<Rightarrow> error option \<times> Storage" where
  "setItem quota_ok payload store =
     (let logged = store\<lparr>setItem_calls := setItem_calls store @ [payload]\<rparr>
      in if quota_ok payload then (None, logged\<lparr>item := Some (Serialized payload)\<rparr>)
         else (Some QuotaExceededError, logged))"

record AppState =
  files :: "PreviewFile list"
  isRestoring :: bool

text \<open>
  The callback of \<open>parsedFiles.map\<close> in the restore effect; \<open>atob\<close> may throw.
\<close>

definition restoreFile :: "PreviewFile \<Rightarrow> error + PreviewFile" where
  "restoreFile file =
     (let content = (case content_pf file of None \<Rightarrow> [] | Some s \<Rightarrow> s)
      in if truthy (content_pf file) \<and> \<not> includes_str (type_pf file) ''pdf''
            \<and> \<not> endsWith (name_pf file) ''.pptx''
         then Inr (file\<lparr>url_pf := Some (blob_of_string content (type_pf file))\<rparr>)
         else if truthy (content_pf file)
         then (case atob (or_else (index_opt (split_comma content) 1) content) of
                 Inl e \<Rightarrow> Inl e
               | Inr byteCharacters \<Rightarrow>
                   Inr (file\<lparr>url_pf := Some (blob_of_bytes
                          (map (\<lambda>c. of_nat (of_char c)) byteCharacters) (type_pf file))\<rparr>))
         else Inr file)"

text \<open>\<open>xs.map(f)\<close> where \<open>f\<close> may throw: the first exception ends the map.\<close>

fun map_throwing :: "('a \<Rightarrow> error + 'b) \<Rightarrow> 'a list \<Rightarrow> error + 'b list" where
  "map_throwing f [] = Inr []"
| "map_throwing f (x # xs) =
     (case f x of
        Inl e \<Rightarrow> Inl e
      | Inr y \<Rightarrow> (case map_throwing f xs of Inl e \<Rightarrow> Inl e | Inr ys \<Rightarrow> Inr (y # ys)))"

text \<open>The body of the \<open>try\<close> block of the restore effect.\<close>

definition restoredFiles :: "stored \<Rightarrow> error + PreviewFile list" where
  "restoredFiles savedData =
     (case JSON_parse savedData of
        Inl e \<Rightarrow> Inl e
      | Inr parsedFiles \<Rightarrow> map_throwing restoreFile parsedFiles)"

text \<open>
  The restore effect. An effect's result is the new state, or the exception that
  leaves the effect (\<open>Inl\<close>); the \<open>catch\<close> keeps the state as it was.
\<close>

definition restore_effect :: "Storage \<Rightarrow> AppState \<Rightarrow> error + AppState" where
  "restore_effect store st =
     (let st' =
        (case item store of
           None \<Rightarrow> st
         | Some savedData \<Rightarrow>
             (if savedData = Unparseable [] then st
              else (case restoredFiles savedData of
                      Inl e \<Rightarrow> st
                    | Inr restored \<Rightarrow> st\<lparr>files := restored\<rparr>)))
      in Inr (st'\<lparr>isRestoring := False\<rparr>))"

text \<open>The save effect; the \<open>catch\<close> only warns.\<close>

definition save_effect ::
  "(SavedFile list \<Rightarrow> bool) \<Rightarrow> AppState \<Rightarrow> Storage \<Rightarrow> error + Storage" where
  "save_effect quota_ok st store =
     (if isRestoring st then Inr store
      else (let filesToSave = map rest_of (files st)
            in case setItem quota_ok filesToSave store of
                 (None, store') \<Rightarrow> Inr store'
               | (Some e, store') \<Rightarrow> Inr store'))"

section \<open>The application as a whole\<close>

text \<open>
  The state of a page: the component's state, the storage, and the remote calls that
  were issued and have not resolved yet, each with the id of its document.
\<close>

record World =
  app :: AppState
  storage :: Storage
  inflight :: "(string \<times> string) list"

text \<open>
  Loading the page. The first render has \<open>files = []\<close> and \<open>isRestoring = true\<close>;
  after it both effects run with these values, the restore effect first. Its state
  updates give the second render, for which \<open>isRestoring\<close> has changed, so the save
  effect runs again, with the new values. Remote calls of an earlier page are gone.
\<close>

definition mount :: "(SavedFile list \<Rightarrow> bool) \<Rightarrow> Storage \<Rightarrow> error + World" where
  "mount quota_ok store =
     (let st0 = \<lparr>files = [], isRestoring = True\<rparr>
      in case restore_effect store st0 of
           Inl e \<Rightarrow> Inl e
         | Inr st1 \<Rightarrow>
             (case save_effect quota_ok st0 store of
                Inl e \<Rightarrow> Inl e
              | Inr store0 \<Rightarrow>
                  (case save_effect quota_ok st1 store0 of
                     Inl e \<Rightarrow> Inl e
                   | Inr store1 \<Rightarrow> Inr \<lparr>app = st1, storage = store1, inflight = []\<rparr>)))"

text \<open>
  A \<open>setFiles\<close> after the page has loaded: the new list is rendered and, \<open>files\<close>
  being a dependency of the save effect, the effect runs.
\<close>

definition setFiles ::
  "(SavedFile list \<Rightarrow> bool) \<Rightarrow> (PreviewFile list \<Rightarrow> PreviewFile list) \<Rightarrow> World \<Rightarrow> error + World" where
  "setFiles quota_ok update w =
     (let st = (app w)\<lparr>files := update (files (app w))\<rparr>
      in case save_effect quota_ok st (storage w) of
           Inl e \<Rightarrow> Inl e
         | Inr store \<Rightarrow> Inr (w\<lparr>app := st, storage := store\<rparr>))"

text \<open>
  \<open>handleSummarize\<close> up to its \<open>await\<close>: the document is marked and the remote call
  is issued. \<open>summarizeDocument\<close> builds the request from its arguments before it
  waits.
\<close>

definition handleSummarize_request ::
  "(SavedFile list \<Rightarrow> bool) \<Rightarrow> PreviewFile \<Rightarrow> World \<Rightarrow> error + World" where
  "handleSummarize_request quota_ok file w =
     (case setFiles quota_ok (markSummarizing file) w of
        Inl e \<Rightarrow> Inl e
      | Inr w' \<Rightarrow>
          Inr (w'\<lparr>inflight := inflight w'
                 @ [(id_pf file, contents_of (name_pf file) (textToSummarize file))]\<rparr>))"

text \<open>
  \<open>handleSummarize\<close> from the \<open>await\<close> on: the call of this invocation resolves
  with \<open>outcome\<close>, and the summary is stored.
\<close>

definition handleSummarize_resolve ::
  "(SavedFile list \<Rightarrow> bool) \<Rightarrow> PreviewFile \<Rightarrow> remote_outcome \<Rightarrow> World \<Rightarrow> error + World" where
  "handleSummarize_resolve quota_ok file outcome w =
     (let summary = summarizeDocument (\<lambda>_. outcome) (name_pf file) (textToSummarize file);
          w' = w\<lparr>inflight := remove1
                  (id_pf file, contents_of (name_pf file) (textToSummarize file))
                  (inflight w)\<rparr>
      in setFiles quota_ok (storeSummary file summary) w')"

text \<open>The state change of a whole \<open>handleSummarize\<close> on the registry alone.\<close>

definition handleSummarize ::
  "(string \<Rightarrow> remote_outcome) \<Rightarrow> PreviewFile \<Rightarrow> PreviewFile list \<Rightarrow> PreviewFile list" where
  "handleSummarize generateContent file prev =
     storeSummary file
       (summarizeDocument generateContent (name_pf file) (textToSummarize file))
       (markSummarizing file prev)"

text \<open>
  The card's \<open>Gerar IA\<close> control. It is rendered, and so can call
  \<open>onSummarize(file)\<close>, only for a record that has no summary and is not being
  summarized; \<open>file\<close> is the record the card was rendered with. Nothing else calls
  \<open>handleSummarize\<close>.
\<close>

definition card_onSummarize ::
  "(SavedFile list \<Rightarrow> bool) \<Rightarrow> PreviewFile \<Rightarrow> World \<Rightarrow> error + World" where
  "card_onSummarize quota_ok file w =
     (if offersSummarize file then handleSummarize_request quota_ok file w else Inr w)"

text \<open>
  What can happen on a page: the control of the \<open>k\<close>-th card is used (the cards, one
  for each record of the registry, are rendered once the restore is over); a remote
  call that is in flight resolves, and the \<open>handleSummarize\<close> that issued it for
  \<open>file\<close> goes on; a document is removed; a batch of files is dropped or selected.
\<close>

datatype event =
    Click nat
  | Resolve PreviewFile remote_outcome
  | Remove string
  | Ingest "nat \<Rightarrow> string" "File list option"

fun step :: "(SavedFile list \<Rightarrow> bool) \<Rightarrow> event \<Rightarrow> World \<Rightarrow> error + World" where
  "step quota_ok (Click k) w =
     (if isRestoring (app w) then Inr w
      else (case index_opt (files (app w)) k of
              None \<Rightarrow> Inr w
            | Some file \<Rightarrow> card_onSummarize quota_ok file w))"
| "step quota_ok (Resolve file outcome) w =
     (if (id_pf file, contents_of (name_pf file) (textToSummarize file)) \<in> set (inflight w)
      then handleSummarize_resolve quota_ok file outcome w
      else Inr w)"
| "step quota_ok (Remove ident) w = setFiles quota_ok (removeFile ident) w"
| "step quota_ok (Ingest rand newFiles) w =
     (case newFiles of
        None \<Rightarrow> Inr w
      | Some fileList \<Rightarrow>
          (case processedFiles rand fileList of
             Inl e \<Rightarrow> Inl e
           | Inr processed \<Rightarrow> setFiles quota_ok (\<lambda>prev. prev @ processed) w))"

text \<open>
  The state of the calls in flight that the events keep: no two of them are for the
  same id, and every document of the registry with the id of one of them is marked as
  being summarized.
\<close>

definition pending_flagged :: "World \<Rightarrow> bool" where
  "pending_flagged w =
     (distinct (map fst (inflight w))
      \<and> list_all (\<lambda>call. list_all (\<lambda>f. id_pf f = fst call \<longrightarrow>
                                     truthy_flag (isSummarizing_pf f)) (files (app w)))
           (inflight w))"

text \<open>
  An \<open>Ingest\<close> whose drawn ids are not the id of a call in flight.
\<close>

fun ingest_fresh :: "event \<Rightarrow> World \<Rightarrow> bool" where
  "ingest_fresh (Ingest rand (Some fileList)) w =
     list_all (\<lambda>i. substr 2 9 (rand i) \<notin> fst ` set (inflight w)) [0 ..< length fileList]"
| "ingest_fresh e w = True"

text \<open>Whether the restore effect gets a record of the registry back from its saved form.\<close>

definition payload_decodes :: "PreviewFile \<Rightarrow> bool" where
  "payload_decodes f =
     (case restoreFile (parsed_file (rest_of f)) of Inl e \<Rightarrow> False | Inr r \<Rightarrow> True)"

section \<open>Example documents\<close>

definition txt_file :: "string \<Rightarrow> File" where
  "txt_file nm =
     \<lparr>name_file = nm, type_file = ''text/plain'', size_file = 1, bytes_file = [120],
      text_file = ''x'', readable_file = True\<rparr>"

definition png_file :: File where
  "png_file =
     \<lparr>name_file = ''logo.png'', type_file = ''image/png'', size_file = 3,
      bytes_file = [80, 78, 71], text_file = ''PNG'', readable_file = True\<rparr>"

definition empty_pdf_file :: File where
  "empty_pdf_file =
     \<lparr>name_file = ''blank.pdf'', type_file = ''application/pdf'', size_file = 0,
      bytes_file = [], text_file = [], readable_file = True\<rparr>"

definition pdf_file :: File where
  "pdf_file =
     \<lparr>name_file = ''scan.pdf'', type_file = ''application/pdf'', size_file = 4,
      bytes_file = [37, 80, 68, 70], text_file = ''%PDF'', readable_file = True\<rparr>"

definition report_md :: PreviewFile where
  "report_md =
     \<lparr>id_pf = ''i'', name_pf = ''report.md'', type_pf = ''text/markdown'', size_pf = 7,
      url_pf = None, content_pf = Some ''# Title'', summary_pf = None,
      isSummarizing_pf = None\<rparr>"

definition broken_pdf :: PreviewFile where
  "broken_pdf =
     \<lparr>id_pf = ''9'', name_pf = ''scan.pdf'', type_pf = ''application/pdf'', size_pf = 4,
      url_pf = None, content_pf = Some ''%'', summary_pf = None,
      isSummarizing_pf = None\<rparr>"

definition pptx_file :: File where
  "pptx_file =
     \<lparr>name_file = ''deck.pptx'',
      type_file = ''application/vnd.openxmlformats-officedocument.presentationml.presentation'',
      size_file = 4, bytes_file = [80, 75, 3, 4],
      text_file = ''PK'' @ [CHR 0x03, CHR 0x04], readable_file = True\<rparr>"

definition pptx_url :: string where
  "pptx_url =
     ''data:application/vnd.openxmlformats-officedocument.presentationml.presentation''
     @ '';base64,UEsDBA==''"

definition pptx_record :: PreviewFile where
  "pptx_record =
     \<lparr>id_pf = ''i'', name_pf = ''deck.pptx'',
      type_pf = ''application/vnd.openxmlformats-officedocument.presentationml.presentation'',
      size_pf = 4, url_pf = Some (blob_of_file pptx_file), content_pf = Some pptx_url,
      summary_pf = None, isSummarizing_pf = None\<rparr>"

definition blank_pdf :: PreviewFile where
  "blank_pdf =
     \<lparr>id_pf = ''9'', name_pf = ''blank.pdf'', type_pf = ''application/pdf'', size_pf = 0,
      url_pf = Some (blob_of_file empty_pdf_file),
      content_pf = Some ''data:application/pdf;base64,'', summary_pf = None,
      isSummarizing_pf = None\<rparr>"

text \<open>A loaded page with the given registry, an empty storage and no call in flight.\<close>

definition page_of :: "PreviewFile list \<Rightarrow> World" where
  "page_of fs =
     \<lparr>app = \<lparr>files = fs, isRestoring = False\<rparr>,
      storage = \<lparr>item = None, setItem_calls = []\<rparr>, inflight = []\<rparr>"

text \<open>A storage that holds the session of the given records.\<close>

definition session_of :: "PreviewFile list \<Rightarrow> Storage" where
  "session_of fs = \<lparr>item = Some (Serialized (map rest_of fs)), setItem_calls = []\<rparr>"

text \<open>A page whose one document is being summarized.\<close>

definition summarizing_world :: World where
  "summarizing_world =
     \<lparr>app = \<lparr>files = [report_md\<lparr>isSummarizing_pf := Some True\<rparr>], isRestoring = False\<rparr>,
      storage = \<lparr>item = None, setItem_calls = []\<rparr>,
      inflight = [(''i'', contents_of ''report.md'' ''# Title'')]\<rparr>"

section \<open>Properties\<close>

subsection \<open>Facts about the effects\<close>

lemma or_else_simps [simp]:
  "or_else None b = b" "or_else (Some []) b = b" "s \<noteq> [] \<Longrightarrow> or_else (Some s) b = s"
  by (simp_all add: or_else_def)

lemma save_effect_Inr:
  "save_effect q st store =
     Inr (if isRestoring st then store else snd (setItem q (map rest_of (files st)) store))"
  by (simp add: save_effect_def Let_def split: prod.splits option.splits)

lemma setFiles_Inr:
  "setFiles q u w =
     Inr (w\<lparr>app := (app w)\<lparr>files := u (files (app w))\<rparr>,
            storage := (if isRestoring (app w) then storage w
                        else snd (setItem q (map rest_of (u (files (app w)))) (storage w)))\<rparr>)"
  by (simp add: setFiles_def save_effect_Inr Let_def)

lemma rest_of_parsed_file: "rest_of (parsed_file s) = s"
  by (simp add: rest_of_def parsed_file_def)

lemma restoreFile_rest_of: "restoreFile f = Inr f' \<Longrightarrow> rest_of f' = rest_of f"
  by (auto simp add: restoreFile_def rest_of_def Let_def split: if_splits sum.splits)

lemma map_throwing_Inr:
  "map_throwing f xs = Inr ys \<Longrightarrow> list_all2 (\<lambda>x y. f x = Inr y) xs ys"
  by (induction xs arbitrary: ys) (auto split: sum.splits)

lemma map_throwing_Inl:
  "x \<in> set xs \<Longrightarrow> f x = Inl e \<Longrightarrow> \<exists>e'. map_throwing f xs = Inl e'"
  by (induction xs) (auto split: sum.splits)

lemma restoredFiles_rest_of:
  assumes "restoredFiles (Serialized ss) = Inr rs"
  shows "map rest_of rs = ss"
proof -
  have "list_all2 (\<lambda>x y. restoreFile x = Inr y) (map parsed_file ss) rs"
    using assms by (simp add: restoredFiles_def map_throwing_Inr)
  then have "list_all2 (\<lambda>s r. rest_of r = s) ss rs"
    by (auto simp add: list_all2_conv_all_nth dest!: restoreFile_rest_of
        simp add: rest_of_parsed_file)
  then show ?thesis
    by (auto simp add: list_all2_conv_all_nth intro!: nth_equalityI)
qed

lemma mount_Inr:
  "mount q store =
     (case restore_effect store \<lparr>files = [], isRestoring = True\<rparr> of
        Inl e \<Rightarrow> Inl e
      | Inr st1 \<Rightarrow> Inr \<lparr>app = st1,
           storage = (if isRestoring st1 then store
                      else snd (setItem q (map rest_of (files st1)) store)),
           inflight = []\<rparr>)"
  by (simp add: mount_def save_effect_Inr Let_def split: sum.splits)

lemma restore_effect_Inr:
  "\<exists>st'. restore_effect store st = Inr st' \<and> isRestoring st' = False
     \<and> (files st' = files st \<or> (\<exists>d. item store = Some d \<and> restoredFiles d = Inr (files st')))"
  by (auto simp add: restore_effect_def Let_def split: option.splits sum.splits)

lemma rest_of_eq_iff: "rest_of f = rest_of g \<longleftrightarrow> f\<lparr>url_pf := url_pf g\<rparr> = g"
  by (cases f, cases g) (auto simp add: rest_of_def)

lemma atob_percent: "atob ''%'' = Inl InvalidCharacterError"
  by (simp add: atob_def strip_padding_def ascii_whitespace_def endsWith_def b64_value_def Let_def)

subsection \<open>Base64: decoding what was encoded\<close>

lemma unat_byte_less: "unat (a :: byte) < 256"
  using unsigned_less [of a, where ?'a = nat] by simp

lemma base64_split: "base64 bs = map b64_char (sextets bs) @ padding bs"
  by (induction bs rule: base64.induct) (simp_all add: Let_def)

lemma sextets_bound: "list_all (\<lambda>v. v < 64) (sextets bs)"
proof (induction bs rule: sextets.induct)
  case (2 a)
  show ?case using unat_byte_less [of a] by (simp add: Let_def)
next
  case (3 a b)
  show ?case using unat_byte_less [of a] unat_byte_less [of b] by (simp add: Let_def)
next
  case (4 a b c rest)
  then show ?case
    using unat_byte_less [of a] unat_byte_less [of b] unat_byte_less [of c]
    by (simp add: Let_def)
qed simp

lemma b64_value_char: "i < 64 \<Longrightarrow> b64_value (b64_char i) = Some i"
  by (auto simp add: b64_value_def b64_char_def Let_def)

lemma b64_value_plain:
  "b64_value c = Some v \<Longrightarrow> \<not> ascii_whitespace c \<and> c \<noteq> CHR ''='' \<and> c \<noteq> CHR '',''"
  by (auto simp add: b64_value_def ascii_whitespace_def Let_def split: if_splits)

lemma b64_char_plain:
  assumes "i < 64"
  shows "\<not> ascii_whitespace (b64_char i)" "b64_char i \<noteq> CHR ''=''" "b64_char i \<noteq> CHR '',''"
  using b64_value_plain [OF b64_value_char [OF assms]] by simp_all

lemma those_b64_value:
  "list_all (\<lambda>v. v < 64) vs \<Longrightarrow> those (map b64_value (map b64_char vs)) = Some vs"
  by (induction vs) (simp_all add: b64_value_char)

lemma sextets_length: "length (sextets bs) mod 4 \<noteq> 1"
  by (induction bs rule: sextets.induct) (simp_all add: Let_def)

lemma base64_length: "length (base64 bs) mod 4 = 0"
  by (induction bs rule: base64.induct) (simp_all add: Let_def)


lemma d4096: "(n::nat) div 4096 = n div 64 div 64"
  by (simp add: div_mult2_eq [symmetric])

lemma d262144: "(n::nat) div 262144 = n div 64 div 64 div 64"
  by (simp add: div_mult2_eq [symmetric])

lemma recombine64: "(a::nat) div 64 * 64 + a mod 64 = a"
  by simp

lemma sext_recombine:
  "(((n::nat) div 262144 * 64 + n div 4096 mod 64) * 64 + n div 64 mod 64) * 64 + n mod 64 = n"
  by (simp add: d4096 d262144)

lemma divmod256:
  fixes w z :: nat
  assumes "z < 256"
  shows "(w * 256 + z) div 256 = w" "(w * 256 + z) mod 256 = z"
  using assms by simp_all

lemma bytes3:
  fixes x y z :: nat
  assumes "y < 256" "z < 256"
  shows "(x * 65536 + y * 256 + z) div 65536 = x"
    "(x * 65536 + y * 256 + z) div 256 mod 256 = y"
    "(x * 65536 + y * 256 + z) mod 256 = z"
proof -
  have e: "x * 65536 + y * 256 + z = (x * 256 + y) * 256 + z" by simp
  note d = divmod256 [OF assms(2), of "x * 256 + y"]
  note dd = divmod256 [OF assms(1), of x]
  show "(x * 65536 + y * 256 + z) div 256 mod 256 = y"
    by (simp only: e d dd)
  show "(x * 65536 + y * 256 + z) mod 256 = z"
    by (simp only: e d)
  have "(x * 65536 + y * 256 + z) div 65536 = (x * 65536 + y * 256 + z) div 256 div 256"
    by (simp add: div_mult2_eq [symmetric])
  then show "(x * 65536 + y * 256 + z) div 65536 = x"
    by (simp only: e d dd)
qed

lemma sext_recombine2:
  "(((n::nat) div 262144 * 64 + n div 4096 mod 64) * 64 + n div 64 mod 64) div 4 = n div 256"
proof -
  have "((n div 262144 * 64 + n div 4096 mod 64) * 64 + n div 64 mod 64) = n div 64"
    by (simp add: d4096 d262144)
  then show ?thesis by (simp add: div_mult2_eq [symmetric])
qed

lemma sext_recombine1:
  "((n::nat) div 262144 * 64 + n div 4096 mod 64) div 16 = n div 65536"
proof -
  have "(n div 262144 * 64 + n div 4096 mod 64) = n div 4096"
    by (simp add: d4096 d262144)
  then show ?thesis by (simp add: div_mult2_eq [symmetric])
qed


lemma pack_chunk4:
  "pack_sextets (n div 262144 # n div 4096 mod 64 # n div 64 mod 64 # n mod 64 # vs) =
     char_of (n div 65536) # char_of (n div 256 mod 256) # char_of (n mod 256)
       # pack_sextets vs"
  by (simp only: append_Cons append_Nil pack_sextets.simps Let_def sext_recombine)

lemma pack_chunk3:
  "pack_sextets [n div 262144, n div 4096 mod 64, n div 64 mod 64] =
     [char_of (n div 256 div 256), char_of (n div 256 mod 256)]"
  by (simp only: pack_sextets.simps Let_def sext_recombine2)

lemma pack_chunk2:
  "pack_sextets [n div 262144, n div 4096 mod 64] = [char_of (n div 65536)]"
  by (simp only: pack_sextets.simps sext_recombine1)

lemma pack_sextets_sextets: "pack_sextets (sextets bs) = map (\<lambda>b. char_of (unat b)) bs"
proof (induction bs rule: sextets.induct)
  case 1
  show ?case by simp
next
  case (2 a)
  have "(unat a * 65536) div 65536 = unat a" by simp
  then show ?case
    by (simp only: sextets.simps Let_def pack_chunk2 list.map)
next
  case (3 a b)
  have d: "(unat a * 65536 + unat b * 256) div 256 = unat a * 256 + unat b"
    by simp
  have "(unat a * 256 + unat b) div 256 = unat a" "(unat a * 256 + unat b) mod 256 = unat b"
    using divmod256 [OF unat_byte_less [of b], of "unat a"] by simp_all
  then show ?case
    by (simp only: sextets.simps Let_def pack_chunk3 list.map d)
next
  case (4 a b c rest)
  show ?case
    by (simp only: sextets.simps Let_def pack_chunk4 list.map "4.IH" append_Cons append_Nil
        bytes3 [OF unat_byte_less unat_byte_less])
qed


lemma startsWith_rev_no_eq:
  "CHR ''='' \<notin> set s \<Longrightarrow> \<not> startsWith (rev s) (CHR ''='' # t)"
  by (cases "rev s") (auto simp add: rev_eq_Cons_iff)

lemma body_chars:
  assumes "c \<in> set (map b64_char (sextets bs))"
  shows "\<not> ascii_whitespace c" "c \<noteq> CHR ''=''" "c \<noteq> CHR '',''"
proof -
  obtain v where "v \<in> set (sextets bs)" and c: "c = b64_char v"
    using assms by auto
  then have "v < 64"
    using sextets_bound [of bs] by (simp add: list_all_iff)
  then show "\<not> ascii_whitespace c" "c \<noteq> CHR ''=''" "c \<noteq> CHR '',''"
    unfolding c by (rule b64_char_plain)+
qed

lemma body_no_eq: "CHR ''='' \<notin> set (map b64_char (sextets bs))"
  using body_chars(2) by blast

lemma padding_cases: "padding bs = [] \<or> padding bs = ''='' \<or> padding bs = ''==''"
  by (induction bs rule: padding.induct) simp_all

lemma strip_padding_base64: "strip_padding (base64 bs) = map b64_char (sextets bs)"
proof -
  let ?body = "map b64_char (sextets bs)"
  have len: "length (?body @ padding bs) mod 4 = 0"
    using base64_length [of bs] by (simp only: base64_split)
  have no: "\<And>t. \<not> startsWith (rev ?body) (CHR ''='' # t)"
    using body_no_eq by (rule startsWith_rev_no_eq)
  consider "padding bs = []" | "padding bs = ''=''" | "padding bs = ''==''"
    using padding_cases by blast
  then have "strip_padding (?body @ padding bs) = ?body"
  proof cases
    case 1
    then show ?thesis using len no by (simp add: strip_padding_def endsWith_def)
  next
    case 2
    then show ?thesis using len no by (simp add: strip_padding_def endsWith_def butlast_append)
  next
    case 3
    then show ?thesis using len no by (simp add: strip_padding_def endsWith_def butlast_append)
  qed
  then show ?thesis by (simp only: base64_split)
qed

lemma base64_no_whitespace: "filter (\<lambda>c. \<not> ascii_whitespace c) (base64 bs) = base64 bs"
proof -
  have "\<not> ascii_whitespace c" if "c \<in> set (base64 bs)" for c
  proof -
    have "c \<in> set (map b64_char (sextets bs)) \<or> c \<in> set (padding bs)"
      using that by (simp add: base64_split)
    then show ?thesis
    proof
      assume "c \<in> set (map b64_char (sextets bs))"
      then show ?thesis by (rule body_chars)
    next
      assume "c \<in> set (padding bs)"
      then have "c = CHR ''=''" using padding_cases [of bs] by auto
      then show ?thesis by (simp add: ascii_whitespace_def)
    qed
  qed
  then show ?thesis by (simp add: filter_id_conv)
qed

lemma atob_base64: "atob (base64 bs) = Inr (map (\<lambda>b. char_of (unat b)) bs)"
proof -
  have "those (map b64_value (map b64_char (sextets bs))) = Some (sextets bs)"
    using sextets_bound by (rule those_b64_value)
  then show ?thesis
    using sextets_length [of bs]
    by (simp add: atob_def base64_no_whitespace strip_padding_base64 pack_sextets_sextets
        Let_def del: map_map)
qed

lemma bytes_of_binary_string:
  "map (\<lambda>c. of_nat (of_char c)) (map (\<lambda>b. char_of (unat b)) bs) = (bs :: byte list)"
proof -
  have "of_nat (of_char (char_of (unat b) :: char) :: nat) = b" for b :: byte
    using unat_byte_less [of b] by simp
  then show ?thesis by (simp add: comp_def)
qed

lemma base64_no_comma: "CHR '','' \<notin> set (base64 bs)"
proof
  assume "CHR '','' \<in> set (base64 bs)"
  then have "CHR '','' \<in> set (map b64_char (sextets bs)) \<or> CHR '','' \<in> set (padding bs)"
    by (simp add: base64_split)
  then show False
  proof
    assume "CHR '','' \<in> set (map b64_char (sextets bs))"
    then show False using body_chars(3) by blast
  next
    assume "CHR '','' \<in> set (padding bs)"
    then show False using padding_cases [of bs] by auto
  qed
qed

lemma base64_nonempty: "bs \<noteq> [] \<Longrightarrow> base64 bs \<noteq> []"
  by (induction bs rule: base64.induct) (simp_all add: Let_def)

lemma split_comma_none: "CHR '','' \<notin> set s \<Longrightarrow> split_comma s = [s]"
  by (induction s) auto

lemma split_comma_first:
  "CHR '','' \<notin> set a \<Longrightarrow> split_comma (a @ CHR '','' # b) = a # split_comma b"
  by (induction a) auto

lemma data_url_payload:
  assumes "CHR '','' \<notin> set ty" and "bs \<noteq> []"
  shows "or_else (index_opt (split_comma (readAsDataURL ty bs)) 1) (readAsDataURL ty bs)
     = base64 bs"
proof -
  let ?t = "if ty = [] then ''application/octet-stream'' else ty"
  have c: "CHR '','' \<notin> set (''data:'' @ ?t @ '';base64'')"
    using assms(1) by simp
  have "readAsDataURL ty bs = (''data:'' @ ?t @ '';base64'') @ CHR '','' # base64 bs"
    by (simp add: readAsDataURL_def)
  then have "split_comma (readAsDataURL ty bs) = (''data:'' @ ?t @ '';base64'') # [base64 bs]"
    using split_comma_first [OF c, of "base64 bs"] split_comma_none [OF base64_no_comma, of bs]
    by simp
  then show ?thesis
    using base64_nonempty [OF assms(2)] by (simp add: or_else_def)
qed


subsection \<open>Ingestion\<close>

lemma processFile_readable:
  "readable_file file \<Longrightarrow>
   \<exists>p. processFile r file = Inr p \<and> id_pf p = substr 2 9 r \<and> name_pf p = name_file file"
  by (simp add: processFile_def file_text_def fileToBase64_def Let_def)

lemma promise_all_map:
  "list_all (\<lambda>x. \<exists>y. f x = Inr y \<and> P x y) xs \<Longrightarrow>
   \<exists>ys. promise_all (map f xs) = Inr ys \<and> list_all2 P xs ys"
proof (induction xs)
  case Nil
  then show ?case by simp
next
  case (Cons x xs)
  then obtain y ys where "f x = Inr y" "P x y" "promise_all (map f xs) = Inr ys" "list_all2 P xs ys"
    by auto
  then show ?case by simp
qed

lemma processedFiles_readable:
  assumes "list_all readable_file fileList"
  shows "\<exists>added. processedFiles rand fileList = Inr added
      \<and> list_all2 (\<lambda>(i, file) p. id_pf p = substr 2 9 (rand i) \<and> name_pf p = name_file file)
           (zip [0 ..< length fileList] fileList) added"
  unfolding processedFiles_def
proof (rule promise_all_map)
  have "\<forall>x \<in> set (zip [0 ..< length fileList] fileList). readable_file (snd x)"
    using assms by (auto simp add: list_all_iff dest: set_zip_rightD)
  then show "list_all (\<lambda>x. \<exists>y. (case x of (i, file) \<Rightarrow> processFile (rand i) file) = Inr y \<and>
        (case x of (i, file) \<Rightarrow> \<lambda>p. id_pf p = substr 2 9 (rand i) \<and> name_pf p = name_file file) y)
     (zip [0 ..< length fileList] fileList)"
    using processFile_readable by (fastforce simp add: list_all_iff)
qed

lemma list_all2_zip_upt:
  assumes "list_all2 (\<lambda>(i, x) p. g p = a i \<and> h p = b x) (zip [0 ..< length xs] xs) ps"
  shows "length ps = length xs \<and> map g ps = map a [0 ..< length xs] \<and> map h ps = map b xs"
proof -
  have len: "length ps = length xs"
    using assms by (auto dest: list_all2_lengthD)
  have nth: "\<And>i. i < length xs \<Longrightarrow> g (ps ! i) = a i \<and> h (ps ! i) = b (xs ! i)"
    using assms by (auto simp add: list_all2_conv_all_nth)
  show ?thesis using len nth by (auto intro!: nth_equalityI)
qed

lemma promise_all_rejects:
  "x \<in> set xs \<Longrightarrow> f x = Inl e \<Longrightarrow> \<exists>e'. promise_all (map f xs) = Inl e'"
proof (induction xs)
  case Nil
  then show ?case by simp
next
  case (Cons y ys)
  then show ?case by (cases "f y") (auto split: sum.splits)
qed

lemma handleFiles_unreadable:
  assumes "file \<in> set fileList" and "\<not> readable_file file"
  shows "\<exists>e. handleFiles rand (Some fileList) prev = Inl e"
proof -
  obtain i where i: "i < length fileList" and f: "fileList ! i = file"
    using assms(1) by (auto simp add: in_set_conv_nth)
  have m: "(i, file) \<in> set (zip [0 ..< length fileList] fileList)"
    using i f by (auto simp add: in_set_zip intro!: exI [of _ i])
  have "(case (i, file) of (i, file) \<Rightarrow> processFile (rand i) file) = Inl NotReadableError"
    using assms(2) by (simp add: processFile_def file_text_def fileToBase64_def Let_def)
  then obtain e where "processedFiles rand fileList = Inl e"
    unfolding processedFiles_def using promise_all_rejects [OF m] by blast
  then show ?thesis by (simp add: handleFiles_def)
qed

text \<open>
  C2, as the code has it. For every batch of N files that can be read and every
  registry, \<open>handleFiles\<close> appends exactly N records after the existing ones, which
  stay as they were and in their order; the new records are in the order of the batch,
  and the id of the \<open>i\<close>-th is the nine characters cut from the \<open>i\<close>-th random
  draw. No id is compared with any other: the ids of the registry are pairwise distinct
  exactly when the old ids were, the drawn ids are, and no drawn id is an old one.
\<close>

theorem handleFiles_appends:
  assumes "list_all readable_file fileList"
  shows "\<exists>added. handleFiles rand (Some fileList) prev = Inr (prev @ added)
      \<and> length added = length fileList
      \<and> map name_pf added = map name_file fileList
      \<and> map id_pf added = map (\<lambda>i. substr 2 9 (rand i)) [0 ..< length fileList]
      \<and> (distinct (map id_pf (prev @ added)) \<longleftrightarrow>
           distinct (map id_pf prev)
           \<and> distinct (map (\<lambda>i. substr 2 9 (rand i)) [0 ..< length fileList])
           \<and> set (map id_pf prev)
               \<inter> set (map (\<lambda>i. substr 2 9 (rand i)) [0 ..< length fileList]) = {})"
proof -
  obtain added where a: "processedFiles rand fileList = Inr added"
    and b: "list_all2 (\<lambda>(i, file) p. id_pf p = substr 2 9 (rand i) \<and> name_pf p = name_file file)
           (zip [0 ..< length fileList] fileList) added"
    using processedFiles_readable [OF assms] by blast
  have c: "length added = length fileList
     \<and> map id_pf added = map (\<lambda>i. substr 2 9 (rand i)) [0 ..< length fileList]
     \<and> map name_pf added = map name_file fileList"
    using list_all2_zip_upt [OF b] .
  have "handleFiles rand (Some fileList) prev = Inr (prev @ added)"
    using a by (simp add: handleFiles_def)
  moreover have "distinct (map id_pf (prev @ added)) \<longleftrightarrow>
           distinct (map id_pf prev)
           \<and> distinct (map (\<lambda>i. substr 2 9 (rand i)) [0 ..< length fileList])
           \<and> set (map id_pf prev)
               \<inter> set (map (\<lambda>i. substr 2 9 (rand i)) [0 ..< length fileList]) = {}"
    using c by (simp only: map_append distinct_append) 
  ultimately show ?thesis using c by blast
qed

text \<open>
  Two draws of \<open>Math.random()\<close> that both give 0.5 render as \<open>0.i\<close>, and the two
  records of the batch get the same id.
\<close>

theorem handleFiles_id_collision:
  "map_sum id (map id_pf) (handleFiles (\<lambda>i. ''0.i'') (Some [txt_file ''a.txt'', txt_file ''b.txt'']) [])
     = Inr [''i'', ''i'']"
  by (simp add: handleFiles_def processedFiles_def processFile_def txt_file_def isTextFile_def
      file_text_def substr_def endsWith_def Let_def upt_rec)

text \<open>The theorem at a batch of two files whose draws differ.\<close>

theorem handleFiles_appends_witness:
  "\<exists>added. handleFiles (\<lambda>i. if i = 0 then ''0.i'' else ''0.9'')
       (Some [txt_file ''a.txt'', txt_file ''b.txt'']) [] = Inr added
     \<and> map id_pf added = [''i'', ''9''] \<and> distinct (map id_pf added)"
  using handleFiles_appends [of "[txt_file ''a.txt'', txt_file ''b.txt'']"
      "\<lambda>i. if i = 0 then ''0.i'' else ''0.9''" "[]"]
  by (auto simp add: txt_file_def substr_def upt_rec)

subsection \<open>Rendering\<close>

text \<open>
  C8. \<open>renderContent\<close> gives every document and view mode exactly one rendering.
  The rendering is one of the two summary renderings exactly when the mode is
  \<open>Summary\<close>; then it is the spinner while the document is being summarized and the
  summary (or the fixed text for a missing one) otherwise, whatever the name, the type,
  the handle and the content of the document are.
\<close>

theorem renderContent_summary_first:
  "(\<exists>!r. renderContent file mode = r)
   \<and> is_summary_rendering (renderContent file mode) = (mode = Summary)
   \<and> renderContent file Summary =
       (if truthy_flag (isSummarizing_pf file) then SummarySpinner
        else SummaryText (or_else (summary_pf file) no_summary_text))
   \<and> renderContent (file\<lparr>name_pf := nm, type_pf := ty, url_pf := u, content_pf := c\<rparr>) Summary
       = renderContent file Summary"
  by (cases mode) (simp_all add: renderContent_def)

text \<open>The theorem at a PDF that has a summary.\<close>

theorem renderContent_summary_first_witness:
  "renderContent (broken_pdf\<lparr>summary_pf := Some ''S''\<rparr>) Summary = SummaryText ''S''
   \<and> renderContent (broken_pdf\<lparr>summary_pf := Some ''S''\<rparr>) Preview = PdfFrame None"
  using renderContent_summary_first [of "broken_pdf\<lparr>summary_pf := Some ''S''\<rparr>" Summary]
  by (simp add: broken_pdf_def renderContent_def)

subsection \<open>Summarization\<close>

text \<open>
  What a request sends. It issues one remote call, whose contents are the template with
  the file name, followed by the first 5000 characters of: the placeholder made of the
  file name for a document whose type contains \<open>pdf\<close>; otherwise the \<open>content\<close>
  field, or the file name when that field is missing or empty.
\<close>

lemma summarize_input_selection:
  "\<exists>w' sent. handleSummarize_request q file w = Inr w'
     \<and> inflight w' = inflight w @ [(id_pf file, prompt_head (name_pf file) @ sent)]
     \<and> sent = take 5000
         (if includes_str (type_pf file) ''pdf'' then ''Documento PDF: '' @ name_pf file
          else if truthy (content_pf file) then the (content_pf file)
          else name_pf file)
     \<and> length sent \<le> 5000"
  by (cases "content_pf file")
     (auto simp add: handleSummarize_request_def setFiles_Inr contents_of_def substring0_def
       textToSummarize_def or_else_def)

lemma index_opt_nth: "index_opt xs k = Some x \<longleftrightarrow> k < length xs \<and> xs ! k = x"
proof (induction xs k rule: index_opt.induct)
  case (1 i) show ?case by simp
next
  case (2 x xs) show ?case by auto
next
  case (3 x xs i) then show ?case by simp
qed

lemma index_opt_map: "index_opt (map g xs) k = map_option g (index_opt xs k)"
  by (induction xs k rule: index_opt.induct) simp_all

lemma pending_flagged_iff:
  "pending_flagged w \<longleftrightarrow>
     distinct (map fst (inflight w))
     \<and> (\<forall>call \<in> set (inflight w). \<forall>f \<in> set (files (app w)).
           id_pf f = fst call \<longrightarrow> truthy_flag (isSummarizing_pf f))"
  by (simp add: pending_flagged_def list_all_iff)

lemma handleSummarize_request_Inr:
  "handleSummarize_request q file w =
     Inr (w\<lparr>app := (app w)\<lparr>files := markSummarizing file (files (app w))\<rparr>,
            storage := (if isRestoring (app w) then storage w
                        else snd (setItem q (map rest_of (markSummarizing file (files (app w))))
                                   (storage w))),
            inflight := inflight w
               @ [(id_pf file, contents_of (name_pf file) (textToSummarize file))]\<rparr>)"
  by (simp add: handleSummarize_request_def setFiles_Inr)

lemma handleSummarize_resolve_Inr:
  "handleSummarize_resolve q file outcome w =
     Inr (w\<lparr>app := (app w)\<lparr>files := storeSummary file
                 (summarizeDocument (\<lambda>r. outcome) (name_pf file) (textToSummarize file))
                 (files (app w))\<rparr>,
            storage := (if isRestoring (app w) then storage w
                        else snd (setItem q (map rest_of (storeSummary file
                 (summarizeDocument (\<lambda>r. outcome) (name_pf file) (textToSummarize file))
                 (files (app w)))) (storage w))),
            inflight := remove1 (id_pf file, contents_of (name_pf file) (textToSummarize file))
                 (inflight w)\<rparr>)"
  by (simp add: handleSummarize_resolve_def setFiles_Inr Let_def)

lemma markSummarizing_set:
  "f' \<in> set (markSummarizing file fs) \<Longrightarrow>
   \<exists>f \<in> set fs. id_pf f' = id_pf f
      \<and> (if id_pf f = id_pf file then truthy_flag (isSummarizing_pf f')
          else f' = f)"
  by (auto simp add: markSummarizing_def)

lemma storeSummary_set:
  "f' \<in> set (storeSummary file s fs) \<Longrightarrow>
   \<exists>f \<in> set fs. id_pf f' = id_pf f \<and> (id_pf f \<noteq> id_pf file \<longrightarrow> f' = f)"
proof -
  assume "f' \<in> set (storeSummary file s fs)"
  then obtain f where f: "f \<in> set fs"
    and e: "f' = (if id_pf f = id_pf file
                 then f\<lparr>summary_pf := Some s, isSummarizing_pf := Some False\<rparr> else f)"
    by (auto simp add: storeSummary_def)
  have "id_pf f' = id_pf f \<and> (id_pf f \<noteq> id_pf file \<longrightarrow> f' = f)"
    by (simp add: e)
  then show ?thesis using f by blast
qed

lemma offers_not_flagged: "offersSummarize f \<Longrightarrow> \<not> truthy_flag (isSummarizing_pf f)"
  by (simp add: offersSummarize_def)

lemma pending_flagged_request:
  assumes inv: "pending_flagged w" and reg: "file \<in> set (files (app w))"
    and off: "offersSummarize file"
    and r: "handleSummarize_request q file w = Inr w1"
  shows "pending_flagged w1"
proof -
  have w1: "inflight w1 = inflight w @ [(id_pf file, contents_of (name_pf file) (textToSummarize file))]"
    "files (app w1) = markSummarizing file (files (app w))"
    using r by (auto simp add: handleSummarize_request_Inr)
  have fresh: "id_pf file \<notin> fst ` set (inflight w)"
  proof
    assume "id_pf file \<in> fst ` set (inflight w)"
    then obtain call where "call \<in> set (inflight w)" "fst call = id_pf file" by auto
    then have "truthy_flag (isSummarizing_pf file)"
      using inv reg by (auto simp add: pending_flagged_iff)
    then show False using off by (simp add: offersSummarize_def)
  qed
  have d: "distinct (map fst (inflight w1))"
    using inv fresh by (simp add: w1 pending_flagged_iff)
  have "truthy_flag (isSummarizing_pf f')"
    if c: "call \<in> set (inflight w1)" and f': "f' \<in> set (files (app w1))"
      and e: "id_pf f' = fst call" for call f'
  proof -
    obtain f where f: "f \<in> set (files (app w))" "id_pf f' = id_pf f"
      and k: "if id_pf f = id_pf file then truthy_flag (isSummarizing_pf f') else f' = f"
      using f' markSummarizing_set unfolding w1 by blast
    show ?thesis
    proof (cases "id_pf f = id_pf file")
      case True
      then show ?thesis using k by simp
    next
      case False
      then have same: "f' = f" using k by simp
      have "call \<in> set (inflight w)"
        using c e f(2) False by (auto simp add: w1)
      then show ?thesis
        using inv f(1) e same by (auto simp add: pending_flagged_iff)
    qed
  qed
  then show ?thesis using d by (auto simp add: pending_flagged_iff)
qed

lemma pending_flagged_resolve:
  assumes inv: "pending_flagged w"
    and p: "(id_pf file, contents_of (name_pf file) (textToSummarize file)) \<in> set (inflight w)"
    and r: "handleSummarize_resolve q file outcome w = Inr w2"
  shows "pending_flagged w2 \<and> id_pf file \<notin> fst ` set (inflight w2)
     \<and> length (inflight w2) < length (inflight w)"
proof -
  let ?c = "(id_pf file, contents_of (name_pf file) (textToSummarize file))"
  have w2: "inflight w2 = remove1 ?c (inflight w)"
    "files (app w2) = storeSummary file
        (summarizeDocument (\<lambda>r. outcome) (name_pf file) (textToSummarize file)) (files (app w))"
    using r by (auto simp add: handleSummarize_resolve_Inr)
  have dist: "distinct (map fst (inflight w))"
    using inv by (simp add: pending_flagged_iff)
  then have di: "distinct (inflight w)"
    by (rule distinct_map [THEN iffD1, THEN conjunct1])
  have inj: "inj_on fst (set (inflight w))"
    using dist by (simp add: distinct_map)
  have gone: "id_pf file \<notin> fst ` set (inflight w2)"
  proof
    assume "id_pf file \<in> fst ` set (inflight w2)"
    then obtain call where c: "call \<in> set (inflight w2)" "fst call = id_pf file" by auto
    then have "call \<in> set (inflight w)" "call \<noteq> ?c"
      using di by (auto simp add: w2)
    then show False using inj p c(2) by (metis inj_onD fst_conv)
  qed
  have d: "distinct (map fst (inflight w2))"
  proof -
    have "distinct (remove1 ?c (inflight w))" using di by simp
    moreover have "inj_on fst (set (remove1 ?c (inflight w)))"
      using inj by (rule inj_on_subset) (rule set_remove1_subset)
    ultimately show ?thesis by (simp add: w2 distinct_map)
  qed
  have "truthy_flag (isSummarizing_pf f')"
    if c: "call \<in> set (inflight w2)" and f': "f' \<in> set (files (app w2))"
      and e: "id_pf f' = fst call" for call f'
  proof -
    have c0: "call \<in> set (inflight w)"
      using c set_remove1_subset [of ?c "inflight w"] by (auto simp add: w2)
    have ne: "fst call \<noteq> id_pf file" using gone c by (metis imageI)
    obtain f where f: "f \<in> set (files (app w))" "id_pf f' = id_pf f"
      and k: "id_pf f \<noteq> id_pf file \<longrightarrow> f' = f"
      using f' storeSummary_set unfolding w2 by blast
    have "f' = f" using k ne e f(2) by simp
    then show ?thesis
      using inv c0 f(1) e by (auto simp add: pending_flagged_iff)
  qed
  moreover have "length (inflight w2) < length (inflight w)"
    using p by (simp add: w2 length_remove1) (cases "inflight w"; simp)
  ultimately show ?thesis using d gone by (auto simp add: pending_flagged_iff)
qed

lemma processFile_pptx: "processFile ''0.i'' pptx_file = Inr pptx_record"
  by (simp add: processFile_def pptx_file_def pptx_record_def pptx_url_def isTextFile_def
      endsWith_def fileToBase64_def readAsDataURL_def substr_def blob_of_file_def Let_def
      b64_char_def char_of_def bit_Suc_0_iff)

text \<open>
  C9 at a presentation. \<open>handleFiles\<close> stores \<open>deck.pptx\<close> as the base64 data URL
  of its bytes; its type does not contain \<open>pdf\<close>, so a request made through its card
  sends that data URL to the remote model, not the file name and not a decoded text.
\<close>

theorem data_url_sent_for_summary:
  "handleFiles (\<lambda>i. ''0.i'') (Some [pptx_file]) [] = Inr [pptx_record]
   \<and> map_sum id inflight (step (\<lambda>p. True) (Click 0) (page_of [pptx_record]))
       = Inr [(''i'', prompt_head ''deck.pptx'' @ pptx_url)]
   \<and> pptx_url \<noteq> ''deck.pptx''
   \<and> pptx_url =
       ''data:application/vnd.openxmlformats-officedocument.presentationml.presentation''
       @ '';base64,'' @ base64 (bytes_file pptx_file)"
proof -
  have a: "handleFiles (\<lambda>i. ''0.i'') (Some [pptx_file]) [] = Inr [pptx_record]"
    by (simp add: handleFiles_def processedFiles_def processFile_pptx)
  have off: "offersSummarize pptx_record"
    by (simp add: offersSummarize_def pptx_record_def)
  have t: "textToSummarize pptx_record = pptx_url"
    by (simp add: textToSummarize_def pptx_record_def pptx_url_def)
  have l: "length pptx_url \<le> 5000"
    by (simp add: pptx_url_def)
  have b: "map_sum id inflight (step (\<lambda>p. True) (Click 0) (page_of [pptx_record]))
       = Inr [(''i'', prompt_head ''deck.pptx'' @ pptx_url)]"
    using off l
    by (simp add: page_of_def card_onSummarize_def handleSummarize_request_Inr t
        contents_of_def substring0_def)
       (simp add: pptx_record_def)
  have c: "pptx_url \<noteq> ''deck.pptx''"
    by (simp add: pptx_url_def)
  have d: "pptx_url =
       ''data:application/vnd.openxmlformats-officedocument.presentationml.presentation''
       @ '';base64,'' @ base64 (bytes_file pptx_file)"
    by (simp add: pptx_url_def pptx_file_def b64_char_def char_of_def bit_Suc_0_iff Let_def)
  show ?thesis using a b c d by blast
qed

text \<open>
  The handler by itself has no check: whatever the state of the document, a call of
  \<open>handleSummarize\<close> issues one more remote call, and the call that resolves stores
  its summary.
\<close>

lemma handleSummarize_has_no_guard:
  "(\<exists>w'. handleSummarize_request q file w = Inr w'
      \<and> length (inflight w') = Suc (length (inflight w)))
   \<and> (\<exists>w'. handleSummarize_resolve q file outcome w = Inr w'
      \<and> files (app w') = storeSummary file
           (summarizeDocument (\<lambda>r. outcome) (name_pf file) (textToSummarize file))
           (files (app w)))"
  by (simp add: handleSummarize_request_def handleSummarize_resolve_def setFiles_Inr Let_def)

text \<open>
  The events keep \<open>pending_flagged\<close>, which holds when the page has loaded: while a
  call is in flight its documents are marked, and no second call for their id is in
  flight. (An \<open>Ingest\<close> keeps it when its drawn ids are not ids of calls in flight.)
\<close>

lemma promise_all_Inr:
  "promise_all rs = Inr ys \<Longrightarrow> list_all2 (\<lambda>r y. r = Inr y) rs ys"
proof (induction rs arbitrary: ys rule: promise_all.induct)
  case 1
  then show ?case by simp
next
  case (2 e rs)
  then show ?case by simp
next
  case (3 x rs)
  then show ?case by (auto split: sum.splits)
qed

lemma processFile_id: "processFile r file = Inr p \<Longrightarrow> id_pf p = substr 2 9 r"
  by (auto simp add: processFile_def Let_def split: sum.splits)

lemma processedFiles_ids:
  assumes "processedFiles rand fileList = Inr processed" and "p \<in> set processed"
  shows "\<exists>i < length fileList. id_pf p = substr 2 9 (rand i)"
proof -
  let ?xs = "zip [0 ..< length fileList] fileList"
  have l: "list_all2 (\<lambda>r y. r = Inr y) (map (\<lambda>(i, file). processFile (rand i) file) ?xs) processed"
    using assms(1) unfolding processedFiles_def by (rule promise_all_Inr)
  obtain k where k: "k < length processed" "processed ! k = p"
    using assms(2) by (auto simp add: in_set_conv_nth)
  have len: "length processed = length fileList"
    using l by (auto dest: list_all2_lengthD)
  have "(map (\<lambda>(i, file). processFile (rand i) file) ?xs) ! k = Inr p"
    using l k by (auto simp add: list_all2_conv_all_nth)
  then have "processFile (rand k) (fileList ! k) = Inr p"
    using k len by simp
  then show ?thesis using k len processFile_id by auto
qed

lemma pending_flagged_files_subset:
  assumes "pending_flagged w" and "inflight w' = inflight w"
    and "set (files (app w')) \<subseteq> set (files (app w))"
  shows "pending_flagged w'"
  using assms by (auto simp add: pending_flagged_iff)

lemma pending_flagged_step:
  assumes inv: "pending_flagged w" and fresh: "ingest_fresh e w"
    and s: "step q e w = Inr w'"
  shows "pending_flagged w'"
proof (cases e)
  case (Click k)
  show ?thesis
  proof (cases "index_opt (files (app w)) k")
    case None
    then show ?thesis using s inv Click by (simp split: if_splits)
  next
    case (Some doc)
    then have reg: "doc \<in> set (files (app w))"
      by (auto simp add: index_opt_nth)
    show ?thesis
    proof (cases "offersSummarize doc \<and> \<not> isRestoring (app w)")
      case True
      then have "handleSummarize_request q doc w = Inr w'"
        using s Click Some by (simp add: card_onSummarize_def)
      with inv reg True show ?thesis by (auto intro: pending_flagged_request)
    next
      case False
      then show ?thesis
        using s inv Click Some by (auto simp add: card_onSummarize_def split: if_splits)
    qed
  qed
next
  case (Resolve doc outcome)
  show ?thesis
  proof (cases "(id_pf doc, contents_of (name_pf doc) (textToSummarize doc)) \<in> set (inflight w)")
    case True
    then have "handleSummarize_resolve q doc outcome w = Inr w'"
      using s Resolve by simp
    then show ?thesis using pending_flagged_resolve [OF inv True] by blast
  next
    case False
    then show ?thesis using s inv Resolve by simp
  qed
next
  case (Remove ident)
  have "inflight w' = inflight w" "set (files (app w')) \<subseteq> set (files (app w))"
    using s Remove by (auto simp add: setFiles_Inr removeFile_def)
  with inv show ?thesis by (rule pending_flagged_files_subset)
next
  case (Ingest rand newFiles)
  show ?thesis
  proof (cases newFiles)
    case None
    then show ?thesis using s inv Ingest by simp
  next
    case (Some fileList)
    then obtain processed where pr: "processedFiles rand fileList = Inr processed"
      using s Ingest by (auto split: sum.splits)
    then have w': "inflight w' = inflight w" "files (app w') = files (app w) @ processed"
      using s Ingest Some by (auto simp add: setFiles_Inr)
    have fr: "\<forall>i < length fileList. substr 2 9 (rand i) \<notin> fst ` set (inflight w)"
      using fresh Ingest Some by (simp add: list_all_iff)
    have "truthy_flag (isSummarizing_pf f)"
      if c: "call \<in> set (inflight w')" and f: "f \<in> set (files (app w'))"
        and e: "id_pf f = fst call" for call f
    proof -
      have "f \<notin> set processed"
      proof
        assume "f \<in> set processed"
        then obtain i where "i < length fileList" "id_pf f = substr 2 9 (rand i)"
          using processedFiles_ids [OF pr] by blast
        then show False using fr c e by (metis imageI w'(1))
      qed
      then have "f \<in> set (files (app w))" using f by (simp add: w')
      then show ?thesis using inv c e by (auto simp add: pending_flagged_iff w')
    qed
    then show ?thesis using inv by (auto simp add: pending_flagged_iff w')
  qed
qed

lemma pending_flagged_mount: "mount q store = Inr w \<Longrightarrow> pending_flagged w"
  by (auto simp add: mount_Inr pending_flagged_def split: sum.splits)

lemma distinct_fst_filter:
  "distinct (map fst xs) \<Longrightarrow> length (filter (\<lambda>c. fst c = i) xs) \<le> 1"
proof (induction xs)
  case Nil
  then show ?case by simp
next
  case (Cons x xs)
  show ?case
  proof (cases "fst x = i")
    case True
    have "fst x \<notin> fst ` set xs" using Cons.prems by simp
    then have "\<forall>c \<in> set xs. fst c \<noteq> i" using True by (metis imageI)
    then have "filter (\<lambda>c. fst c = i) xs = []"
      by (simp add: filter_empty_conv)
    then show ?thesis using True by simp
  next
    case False
    then show ?thesis using Cons by simp
  qed
qed

lemma step_Click_flagged:
  assumes "index_opt (files (app w)) k = Some doc" and "\<not> offersSummarize doc"
  shows "step q (Click k) w = Inr w"
  using assms by (simp add: card_onSummarize_def)

lemma step_Click_twice:
  assumes i: "index_opt (files (app w)) k = Some doc"
  shows "\<exists>w1. step q (Click k) w = Inr w1 \<and> step q (Click k) w1 = Inr w1
     \<and> length (inflight w1) \<le> Suc (length (inflight w))"
proof (cases "offersSummarize doc \<and> \<not> isRestoring (app w)")
  case False
  then have "step q (Click k) w = Inr w"
    using i by (auto simp add: card_onSummarize_def)
  then show ?thesis by simp
next
  case True
  let ?w1 = "w\<lparr>app := (app w)\<lparr>files := markSummarizing doc (files (app w))\<rparr>,
            storage := (if isRestoring (app w) then storage w
                        else snd (setItem q (map rest_of (markSummarizing doc (files (app w))))
                                   (storage w))),
            inflight := inflight w
               @ [(id_pf doc, contents_of (name_pf doc) (textToSummarize doc))]\<rparr>"
  have a: "step q (Click k) w = Inr ?w1"
    using i True by (simp add: card_onSummarize_def handleSummarize_request_Inr)
  have "index_opt (files (app ?w1)) k = Some (doc\<lparr>isSummarizing_pf := Some True\<rparr>)"
    using i by (simp add: markSummarizing_def index_opt_map)
  moreover have "\<not> offersSummarize (doc\<lparr>isSummarizing_pf := Some True\<rparr>)"
    by (simp add: offersSummarize_def)
  ultimately have b: "step q (Click k) ?w1 = Inr ?w1"
    by (rule step_Click_flagged)
  show ?thesis using a b by simp
qed

lemma step_Resolve_Inr: "\<exists>w'. step q (Resolve f outcome) w = Inr w'"
  by (simp add: handleSummarize_resolve_Inr)

lemma step_Resolve_once:
  assumes inv: "pending_flagged w1" and f: "id_pf f = i" and f': "id_pf f' = i"
  shows "\<exists>w2 w3. step q (Resolve f outcome) w1 = Inr w2
     \<and> step q (Resolve f' outcome') w2 = Inr w3 \<and> (w2 = w1 \<or> w3 = w2)"
proof (cases "(id_pf f, contents_of (name_pf f) (textToSummarize f)) \<in> set (inflight w1)")
  case False
  then have "step q (Resolve f outcome) w1 = Inr w1" by simp
  moreover obtain w3 where "step q (Resolve f' outcome') w1 = Inr w3"
    using step_Resolve_Inr by blast
  ultimately show ?thesis by auto
next
  case True
  obtain w2 where r: "handleSummarize_resolve q f outcome w1 = Inr w2"
    by (auto simp add: handleSummarize_resolve_Inr)
  have "id_pf f \<notin> fst ` set (inflight w2)"
    using pending_flagged_resolve [OF inv True r] by blast
  then have "(id_pf f', contents_of (name_pf f') (textToSummarize f')) \<notin> set (inflight w2)"
    using f f' by (metis fst_conv imageI)
  then have "step q (Resolve f' outcome') w2 = Inr w2" by simp
  moreover have "step q (Resolve f outcome) w1 = Inr w2"
    using True r by simp
  ultimately show ?thesis by auto
qed

text \<open>
  C3. A request can be made through the card only, and the card of a document that is
  being summarized has no control for it: using it changes nothing, so no remote call
  is added. Two requests in a row on one card issue at most one call. In a state the
  events can reach, a document with a call in flight is marked, so a request on it is
  a no-op as well; after the request at most one call for the document is in flight,
  and of any two resolutions for the document at most one changes anything.
\<close>

theorem second_request_is_noop:
  assumes "index_opt (files (app w)) k = Some file"
  shows "(truthy_flag (isSummarizing_pf file) \<longrightarrow> step q (Click k) w = Inr w)
     \<and> (\<exists>w1. step q (Click k) w = Inr w1 \<and> step q (Click k) w1 = Inr w1
           \<and> length (inflight w1) \<le> Suc (length (inflight w)))
     \<and> (pending_flagged w \<longrightarrow>
          (id_pf file \<in> fst ` set (inflight w) \<longrightarrow> step q (Click k) w = Inr w)
          \<and> (\<exists>w1. step q (Click k) w = Inr w1 \<and> pending_flagged w1
                \<and> length (filter (\<lambda>c. fst c = id_pf file) (inflight w1)) \<le> 1
                \<and> (\<forall>f outcome f' outcome'. id_pf f = id_pf file \<and> id_pf f' = id_pf file \<longrightarrow>
                      (\<exists>w2 w3. step q (Resolve f outcome) w1 = Inr w2
                         \<and> step q (Resolve f' outcome') w2 = Inr w3
                         \<and> (w2 = w1 \<or> w3 = w2)))))"
proof -
  have a: "truthy_flag (isSummarizing_pf file) \<longrightarrow> step q (Click k) w = Inr w"
    using assms by (simp add: card_onSummarize_def offersSummarize_def)
  have b: "\<exists>w1. step q (Click k) w = Inr w1 \<and> step q (Click k) w1 = Inr w1
           \<and> length (inflight w1) \<le> Suc (length (inflight w))"
    using assms by (rule step_Click_twice)
  have c: "(id_pf file \<in> fst ` set (inflight w) \<longrightarrow> step q (Click k) w = Inr w)
          \<and> (\<exists>w1. step q (Click k) w = Inr w1 \<and> pending_flagged w1
                \<and> length (filter (\<lambda>c. fst c = id_pf file) (inflight w1)) \<le> 1
                \<and> (\<forall>f outcome f' outcome'. id_pf f = id_pf file \<and> id_pf f' = id_pf file \<longrightarrow>
                      (\<exists>w2 w3. step q (Resolve f outcome) w1 = Inr w2
                         \<and> step q (Resolve f' outcome') w2 = Inr w3
                         \<and> (w2 = w1 \<or> w3 = w2))))"
    if inv: "pending_flagged w"
  proof -
    have reg: "file \<in> set (files (app w))"
      using assms by (auto simp add: index_opt_nth)
    have c1: "id_pf file \<in> fst ` set (inflight w) \<longrightarrow> step q (Click k) w = Inr w"
    proof
      assume "id_pf file \<in> fst ` set (inflight w)"
      then obtain call where "call \<in> set (inflight w)" "fst call = id_pf file" by auto
      then have "truthy_flag (isSummarizing_pf file)"
        using inv reg by (auto simp add: pending_flagged_iff)
      then show "step q (Click k) w = Inr w" using a by simp
    qed
    obtain w1 where w1: "step q (Click k) w = Inr w1"
      using b by blast
    have inv1: "pending_flagged w1"
      using inv _ w1 by (rule pending_flagged_step) simp
    have one: "length (filter (\<lambda>c. fst c = id_pf file) (inflight w1)) \<le> 1"
      using inv1 by (intro distinct_fst_filter) (simp add: pending_flagged_iff)
    have res: "\<forall>f outcome f' outcome'. id_pf f = id_pf file \<and> id_pf f' = id_pf file \<longrightarrow>
                      (\<exists>w2 w3. step q (Resolve f outcome) w1 = Inr w2
                         \<and> step q (Resolve f' outcome') w2 = Inr w3
                         \<and> (w2 = w1 \<or> w3 = w2))"
      using step_Resolve_once [OF inv1] by blast
    show ?thesis using c1 w1 inv1 one res by blast
  qed
  show ?thesis using a b c by blast
qed

text \<open>
  The theorem at a page whose document is being summarized, where the request changes
  nothing, and at a page with one idle document: the first request marks it and issues
  the call, the second changes nothing.
\<close>

theorem second_request_is_noop_witness:
  "step (\<lambda>p. True) (Click 0) summarizing_world = Inr summarizing_world
   \<and> (\<exists>w1. step (\<lambda>p. True) (Click 0) (page_of [report_md]) = Inr w1
     \<and> map fst (inflight w1) = [''i'']
     \<and> map isSummarizing_pf (files (app w1)) = [Some True]
     \<and> step (\<lambda>p. True) (Click 0) w1 = Inr w1
     \<and> pending_flagged w1)"
proof -
  have s: "step (\<lambda>p. True) (Click 0) summarizing_world = Inr summarizing_world"
    using second_request_is_noop
      [of summarizing_world 0 "report_md\<lparr>isSummarizing_pf := Some True\<rparr>" "\<lambda>p. True"]
    by (simp add: summarizing_world_def)
  have i: "index_opt (files (app (page_of [report_md]))) 0 = Some report_md"
    by (simp add: page_of_def)
  have p: "pending_flagged (page_of [report_md])"
    by (simp add: pending_flagged_def page_of_def)
  obtain w1 where a: "step (\<lambda>p. True) (Click 0) (page_of [report_md]) = Inr w1"
    and b: "step (\<lambda>p. True) (Click 0) w1 = Inr w1"
    and c: "pending_flagged w1"
    using second_request_is_noop [OF i, of "\<lambda>p. True"] p by fastforce
  have "map fst (inflight w1) = [''i'']
     \<and> map isSummarizing_pf (files (app w1)) = [Some True]"
    using a
    by (auto simp add: page_of_def report_md_def card_onSummarize_def offersSummarize_def
        handleSummarize_request_Inr markSummarizing_def)
  then show ?thesis using s a b c by simp
qed

lemma summary_empty_nonempty: "summary_empty \<noteq> []"
  by (simp add: summary_empty_def)

lemma summary_error_nonempty: "summary_error \<noteq> []"
  by (simp add: summary_error_def)

lemma handleSummarize_map:
  "handleSummarize g file prev =
     map (\<lambda>f. if id_pf f = id_pf file
              then f\<lparr>summary_pf := Some (summarizeDocument g (name_pf file) (textToSummarize file)),
                     isSummarizing_pf := Some False\<rparr>
              else f) prev"
  by (simp add: handleSummarize_def storeSummary_def markSummarizing_def)

text \<open>
  C4, as the code has it. When the remote call throws, or answers with no text or an
  empty text, the summary of the document becomes the fixed message for that case and
  \<open>isSummarizing\<close> becomes false; the other documents stay as they are. A record has
  no field that says the call failed: the registry is the one a remote answer with the
  same text gives.
\<close>

theorem failure_stores_fallback:
  assumes "outcome = Throws \<or> outcome = Responds None \<or> outcome = Responds (Some [])"
  shows "handleSummarize (\<lambda>r. outcome) file prev =
      map (\<lambda>f. if id_pf f = id_pf file
               then f\<lparr>summary_pf := Some (if outcome = Throws then summary_error
                                           else summary_empty),
                      isSummarizing_pf := Some False\<rparr>
               else f) prev
    \<and> handleSummarize (\<lambda>r. outcome) file prev =
      handleSummarize
        (\<lambda>r. Responds (Some (if outcome = Throws then summary_error else summary_empty)))
        file prev"
  using assms summary_empty_nonempty summary_error_nonempty
  by (auto simp add: handleSummarize_map summarizeDocument_def)

text \<open>
  A call that throws and a call that answers with the text of the error message leave
  the same registry.
\<close>

theorem failed_same_as_done:
  "handleSummarize (\<lambda>r. Throws) report_md [report_md]
     = handleSummarize (\<lambda>r. Responds (Some ''Erro ao processar o resumo com a IA.''))
         report_md [report_md]"
  by (simp add: handleSummarize_map summarizeDocument_def summary_error_def)

text \<open>The theorem at a call that throws.\<close>

theorem failure_stores_fallback_witness:
  "handleSummarize (\<lambda>r. Throws) report_md [report_md] =
     [report_md\<lparr>summary_pf := Some summary_error, isSummarizing_pf := Some False\<rparr>]"
  using failure_stores_fallback [of Throws report_md "[report_md]"]
  by simp

subsection \<open>The session store\<close>

lemma restoreFile_binary:
  assumes "content_pf f = Some c" and "c \<noteq> []"
    and "includes_str (type_pf f) ''pdf'' \<or> endsWith (name_pf f) ''.pptx''"
    and "atob (or_else (index_opt (split_comma c) 1) c) = Inr s"
  shows "restoreFile f =
     Inr (f\<lparr>url_pf := Some (blob_of_bytes (map (\<lambda>c. of_nat (of_char c)) s) (type_pf f))\<rparr>)"
  using assms by (auto simp add: restoreFile_def Let_def)

lemma restoreFile_text:
  assumes "content_pf f = Some c" and "c \<noteq> []"
    and "\<not> includes_str (type_pf f) ''pdf''" and "\<not> endsWith (name_pf f) ''.pptx''"
  shows "restoreFile f = Inr (f\<lparr>url_pf := Some (blob_of_string c (type_pf f))\<rparr>)"
  using assms by (simp add: restoreFile_def Let_def)

lemma restoreFile_throws:
  assumes "content_pf f = Some c" and "c \<noteq> []"
    and "includes_str (type_pf f) ''pdf'' \<or> endsWith (name_pf f) ''.pptx''"
    and "atob (or_else (index_opt (split_comma c) 1) c) = Inl e"
  shows "restoreFile f = Inl e"
  using assms by (auto simp add: restoreFile_def Let_def)

lemma processFile_png:
  "processFile ''0.i'' png_file =
     Inr \<lparr>id_pf = ''i'', name_pf = ''logo.png'', type_pf = ''image/png'', size_pf = 3,
          url_pf = Some (blob_of_file png_file),
          content_pf = Some ''data:image/png;base64,UE5H'', summary_pf = None,
          isSummarizing_pf = None\<rparr>"
  by (simp add: processFile_def png_file_def isTextFile_def endsWith_def fileToBase64_def
      readAsDataURL_def substr_def Let_def b64_char_def char_of_def bit_Suc_0_iff)

lemma processFile_empty_pdf:
  "processFile ''0.i'' empty_pdf_file =
     Inr \<lparr>id_pf = ''i'', name_pf = ''blank.pdf'', type_pf = ''application/pdf'', size_pf = 0,
          url_pf = Some (blob_of_file empty_pdf_file),
          content_pf = Some ''data:application/pdf;base64,'', summary_pf = None,
          isSummarizing_pf = None\<rparr>"
  by (simp add: processFile_def empty_pdf_file_def isTextFile_def endsWith_def
      fileToBase64_def readAsDataURL_def substr_def Let_def)

lemma index_opt_1: "index_opt (x # y # ys) 1 = Some y"
  by (simp only: One_nat_def index_opt.simps)

lemma atob_empty_data_url:
  "atob (or_else (index_opt (split_comma ''data:application/pdf;base64,'') 1)
           ''data:application/pdf;base64,'') = Inl InvalidCharacterError"
proof -
  have "atob ''data:application/pdf;base64,'' = Inl InvalidCharacterError"
    by (simp add: atob_def strip_padding_def ascii_whitespace_def endsWith_def b64_value_def
        Let_def)
  moreover have "index_opt (split_comma ''data:application/pdf;base64,'') 1 = Some []"
    by (simp add: index_opt_1)
  ultimately show ?thesis by simp
qed

text \<open>
  C1 at two files. An image is stored as the base64 data URL of its bytes; on restore
  its record takes the text branch, and its handle resolves to the characters of the
  data URL, not to the bytes of the file. A PDF of no bytes is stored as a data URL
  with an empty payload; on restore \<open>atob\<close> is given the whole data URL and throws,
  which ends the restore of the session.
\<close>

theorem binary_not_decoded_on_restore:
  "map_sum id (map content_pf) (handleFiles (\<lambda>i. ''0.i'') (Some [png_file]) [])
     = Inr [Some ''data:image/png;base64,UE5H'']
   \<and> map_sum id (map (map_option blob_bytes \<circ> url_pf))
        (restoredFiles (Serialized
           [\<lparr>id_sf = ''i'', name_sf = ''logo.png'', type_sf = ''image/png'', size_sf = 3,
             content_sf = Some ''data:image/png;base64,UE5H'', summary_sf = None,
             isSummarizing_sf = None\<rparr>]))
     = Inr [Some (utf8_encode ''data:image/png;base64,UE5H'')]
   \<and> utf8_encode ''data:image/png;base64,UE5H'' \<noteq> bytes_file png_file
   \<and> map_sum id (map content_pf) (handleFiles (\<lambda>i. ''0.i'') (Some [empty_pdf_file]) [])
     = Inr [Some ''data:application/pdf;base64,'']
   \<and> restoredFiles (Serialized
           [rest_of report_md,
            \<lparr>id_sf = ''i'', name_sf = ''blank.pdf'', type_sf = ''application/pdf'', size_sf = 0,
             content_sf = Some ''data:application/pdf;base64,'', summary_sf = None,
             isSummarizing_sf = None\<rparr>])
     = Inl InvalidCharacterError"
proof -
  have b: "handleFiles (\<lambda>i. ''0.i'') (Some [png_file]) [] =
     Inr [\<lparr>id_pf = ''i'', name_pf = ''logo.png'', type_pf = ''image/png'', size_pf = 3,
          url_pf = Some (blob_of_file png_file),
          content_pf = Some ''data:image/png;base64,UE5H'', summary_pf = None,
          isSummarizing_pf = None\<rparr>]"
    by (simp add: handleFiles_def processedFiles_def processFile_png)
  have c: "handleFiles (\<lambda>i. ''0.i'') (Some [empty_pdf_file]) [] =
     Inr [\<lparr>id_pf = ''i'', name_pf = ''blank.pdf'', type_pf = ''application/pdf'', size_pf = 0,
          url_pf = Some (blob_of_file empty_pdf_file),
          content_pf = Some ''data:application/pdf;base64,'', summary_pf = None,
          isSummarizing_pf = None\<rparr>]"
    by (simp add: handleFiles_def processedFiles_def processFile_empty_pdf)
  have d: "length (utf8_encode ''data:image/png;base64,UE5H'') = 26"
    by (simp add: utf8_encode_def utf8_unit_def)
  have e: "restoreFile (parsed_file
            \<lparr>id_sf = ''i'', name_sf = ''logo.png'', type_sf = ''image/png'', size_sf = 3,
             content_sf = Some ''data:image/png;base64,UE5H'', summary_sf = None,
             isSummarizing_sf = None\<rparr>)
       = Inr ((parsed_file
            \<lparr>id_sf = ''i'', name_sf = ''logo.png'', type_sf = ''image/png'', size_sf = 3,
             content_sf = Some ''data:image/png;base64,UE5H'', summary_sf = None,
             isSummarizing_sf = None\<rparr>)
          \<lparr>url_pf := Some (blob_of_string ''data:image/png;base64,UE5H'' ''image/png'')\<rparr>)"
    by (simp add: restoreFile_text parsed_file_def endsWith_def)
  have f: "restoreFile (parsed_file
            \<lparr>id_sf = ''i'', name_sf = ''blank.pdf'', type_sf = ''application/pdf'', size_sf = 0,
             content_sf = Some ''data:application/pdf;base64,'', summary_sf = None,
             isSummarizing_sf = None\<rparr>) = Inl InvalidCharacterError"
    by (rule restoreFile_throws [OF _ _ _ atob_empty_data_url])
       (simp_all add: parsed_file_def)
  have g: "restoreFile (parsed_file (rest_of report_md)) =
      Inr ((parsed_file (rest_of report_md))
          \<lparr>url_pf := Some (blob_of_string ''# Title'' ''text/markdown'')\<rparr>)"
    by (simp add: restoreFile_text parsed_file_def rest_of_def report_md_def endsWith_def)
  have h: "length (bytes_file png_file) = 3"
    by (simp add: png_file_def)
  have ne: "utf8_encode ''data:image/png;base64,UE5H'' \<noteq> bytes_file png_file"
  proof
    assume "utf8_encode ''data:image/png;base64,UE5H'' = bytes_file png_file"
    then have "length (utf8_encode ''data:image/png;base64,UE5H'') = length (bytes_file png_file)"
      by (rule arg_cong)
    then show False by (simp add: d h)
  qed
  show ?thesis
    by (simp add: b c e f g ne restoredFiles_def blob_of_string_def)
qed

text \<open>
  What does hold: a file of at least one byte that \<open>handleFiles\<close> stores as base64,
  whose type has no comma and contains \<open>pdf\<close> or whose name ends in \<open>.pptx\<close>, is
  restored to a handle that resolves to the bytes of the file.
\<close>

lemma binary_round_trip:
  assumes "\<not> isTextFile file" and "readable_file file" and "bytes_file file \<noteq> []"
    and "CHR '','' \<notin> set (type_file file)"
    and "includes_str (type_file file) ''pdf'' \<or> endsWith (name_file file) ''.pptx''"
  shows "\<exists>p r. processFile rnd file = Inr p
      \<and> restoreFile (parsed_file (rest_of p)) = Inr r
      \<and> map_option blob_bytes (url_pf r) = Some (bytes_file file)"
proof -
  let ?url = "readAsDataURL (type_file file) (bytes_file file)"
  let ?ty = "if type_file file = [] then ''application/octet-stream'' else type_file file"
  let ?p = "\<lparr>id_pf = substr 2 9 rnd, name_pf = name_file file, type_pf = ?ty,
     size_pf = size_file file,
     url_pf = Some (blob_of_file file),
     content_pf = Some ?url, summary_pf = None, isSummarizing_pf = None\<rparr>"
  have p: "processFile rnd file = Inr ?p"
    using assms(1,2) by (simp add: processFile_def fileToBase64_def Let_def)
  have ne: "?url \<noteq> []"
    by (simp add: readAsDataURL_def)
  have br: "includes_str (type_pf (parsed_file (rest_of ?p))) ''pdf''
      \<or> endsWith (name_pf (parsed_file (rest_of ?p))) ''.pptx''"
    using assms(5) by (auto simp add: parsed_file_def rest_of_def)
  have payload: "or_else (index_opt (split_comma ?url) 1) ?url = base64 (bytes_file file)"
    using assms(4,3) by (rule data_url_payload)
  have dec: "atob (or_else (index_opt (split_comma ?url) 1) ?url)
      = Inr (map (\<lambda>b. char_of (unat b)) (bytes_file file))"
    by (simp only: payload atob_base64)
  have ct: "content_pf (parsed_file (rest_of ?p)) = Some ?url"
    by (simp add: parsed_file_def rest_of_def)
  have "restoreFile (parsed_file (rest_of ?p)) =
      Inr ((parsed_file (rest_of ?p))\<lparr>url_pf := Some (blob_of_bytes
         (map (\<lambda>c. of_nat (of_char c)) (map (\<lambda>b. char_of (unat b)) (bytes_file file)))
         (type_pf (parsed_file (rest_of ?p))))\<rparr>)"
    using ct ne br dec by (rule restoreFile_binary)
  then have "restoreFile (parsed_file (rest_of ?p)) =
      Inr ((parsed_file (rest_of ?p))\<lparr>url_pf := Some (blob_of_bytes (bytes_file file)
         (type_pf (parsed_file (rest_of ?p))))\<rparr>)"
    by (simp only: bytes_of_binary_string)
  then show ?thesis
    using p by (simp add: blob_of_bytes_def)
qed

lemma binary_round_trip_example:
  "\<exists>p r. processFile ''0.i'' pdf_file = Inr p
      \<and> restoreFile (parsed_file (rest_of p)) = Inr r
      \<and> map_option blob_bytes (url_pf r) = Some [37, 80, 68, 70]"
  using binary_round_trip [of pdf_file "''0.i''"]
  by (simp add: pdf_file_def isTextFile_def endsWith_def)

text \<open>
  C5, as the code has it. The \<open>try\<close> block of the restore effect spans the whole
  session: when the payload of one record does not decode, the effect does not throw,
  but no record of the session is restored and the registry stays empty.
\<close>

theorem decode_failure_caught_for_session:
  assumes "item store = Some (Serialized ss)" and "s \<in> set ss"
    and "restoreFile (parsed_file s) = Inl e"
  shows "restore_effect store st = Inr (st\<lparr>isRestoring := False\<rparr>)
     \<and> (\<exists>w. mount q store = Inr w \<and> files (app w) = [])"
proof -
  have "\<exists>e'. map_throwing restoreFile (map parsed_file ss) = Inl e'"
    using assms(2,3) by (intro map_throwing_Inl [of "parsed_file s"]) auto
  then obtain e' where "restoredFiles (Serialized ss) = Inl e'"
    by (auto simp add: restoredFiles_def)
  then have "restore_effect store st = Inr (st\<lparr>isRestoring := False\<rparr>)" for st
    using assms(1) by (simp add: restore_effect_def)
  then show ?thesis by (simp add: mount_Inr)
qed

text \<open>A session of a good record and a record whose payload is not base64.\<close>

theorem bad_record_blocks_restore:
  "map_sum id (\<lambda>w. files (app w)) (mount (\<lambda>p. True) (session_of [report_md, broken_pdf]))
     = Inr []"
  by (simp add: mount_Inr restore_effect_def restoredFiles_def restoreFile_def
      session_of_def report_md_def broken_pdf_def rest_of_def parsed_file_def endsWith_def
      atob_percent Let_def)

text \<open>The theorem at that session.\<close>

theorem decode_failure_caught_for_session_witness:
  "restoreFile (parsed_file (rest_of broken_pdf)) = Inl InvalidCharacterError
   \<and> restore_effect (session_of [report_md, broken_pdf]) \<lparr>files = [], isRestoring = True\<rparr>
       = Inr \<lparr>files = [], isRestoring = False\<rparr>"
proof -
  have a: "restoreFile (parsed_file (rest_of broken_pdf)) = Inl InvalidCharacterError"
    by (simp add: restoreFile_def broken_pdf_def rest_of_def parsed_file_def atob_percent)
  have b: "item (session_of [report_md, broken_pdf])
      = Some (Serialized [rest_of report_md, rest_of broken_pdf])"
    by (simp add: session_of_def)
  show ?thesis
    using a decode_failure_caught_for_session [OF b _ a, of "\<lparr>files = [], isRestoring = True\<rparr>"]
    by simp
qed



text \<open>
  C7, as the code has it. The save effect writes nothing while \<open>isRestoring\<close> is
  true. The end of the restore sets it to false, and for that change the save effect
  runs once more: loading the page calls \<open>setItem\<close> exactly once, with the records
  of the registry without their \<open>url\<close>, which for a restored session are the records
  just loaded. Every \<open>setFiles\<close> after that calls \<open>setItem\<close> again.
\<close>

theorem save_after_restore:
  "(isRestoring st \<longrightarrow> save_effect q st store = Inr store)
   \<and> (\<exists>w. mount q store = Inr w
        \<and> isRestoring (app w) = False
        \<and> setItem_calls (storage w) = setItem_calls store @ [map rest_of (files (app w))]
        \<and> (\<forall>ss. item store = Some (Serialized ss) \<and> files (app w) \<noteq> []
              \<longrightarrow> map rest_of (files (app w)) = ss)
        \<and> (\<exists>w'. setFiles q update w = Inr w'
              \<and> setItem_calls (storage w') =
                  setItem_calls (storage w) @ [map rest_of (update (files (app w)))]))"
proof -
  obtain st' where a: "restore_effect store \<lparr>files = [], isRestoring = True\<rparr> = Inr st'"
    and b: "isRestoring st' = False"
    and c: "files st' = files \<lparr>files = [], isRestoring = True\<rparr>
        \<or> (\<exists>d. item store = Some d \<and> restoredFiles d = Inr (files st'))"
    using restore_effect_Inr by blast
  have d: "\<forall>ss. item store = Some (Serialized ss) \<and> files st' \<noteq> []
              \<longrightarrow> map rest_of (files st') = ss"
    using c by (auto dest: restoredFiles_rest_of)
  show ?thesis
    using a b d by (simp add: save_effect_Inr mount_Inr setFiles_Inr setItem_def Let_def)
qed

text \<open>Loading a page over a session of one record: the record is written back.\<close>

theorem restore_triggers_save:
  "map_sum id (\<lambda>w. setItem_calls (storage w)) (mount (\<lambda>p. True) (session_of [report_md]))
     = Inr [[rest_of report_md]]"
  by (simp add: mount_Inr restore_effect_def restoredFiles_def restoreFile_def setItem_def
      session_of_def report_md_def rest_of_def parsed_file_def endsWith_def Let_def)

text \<open>The theorem at that session.\<close>

theorem save_after_restore_witness:
  "\<exists>w. mount (\<lambda>p. True) (session_of [report_md]) = Inr w
     \<and> map id_pf (files (app w)) = [''i'']
     \<and> setItem_calls (storage w) = [[rest_of report_md]]"
  using save_after_restore [of "\<lparr>files = [], isRestoring = True\<rparr>" "\<lambda>p. True"
     "session_of [report_md]" id]
  by (auto simp add: mount_Inr restore_effect_def restoredFiles_def restoreFile_def setItem_def
      session_of_def report_md_def rest_of_def parsed_file_def endsWith_def Let_def)

lemma map_throwing_all:
  "list_all (\<lambda>x. \<exists>y. f x = Inr y) xs \<Longrightarrow> \<exists>ys. map_throwing f xs = Inr ys"
  by (induction xs) auto

lemma payload_decodes_iff: "payload_decodes f \<longleftrightarrow> (\<exists>r. restoreFile (parsed_file (rest_of f)) = Inr r)"
  by (simp add: payload_decodes_def split: sum.splits)

lemma restoredFiles_decodes:
  "list_all payload_decodes fs \<Longrightarrow> \<exists>rs. restoredFiles (Serialized (map rest_of fs)) = Inr rs"
proof -
  assume "list_all payload_decodes fs"
  then have "list_all (\<lambda>x. \<exists>y. restoreFile x = Inr y) (map parsed_file (map rest_of fs))"
    by (simp add: list_all_iff payload_decodes_iff)
  then show ?thesis
    unfolding restoredFiles_def JSON_parse.simps sum.case by (rule map_throwing_all)
qed

lemma restoredFiles_not_decodes:
  "\<not> list_all payload_decodes fs \<Longrightarrow> \<exists>e. restoredFiles (Serialized (map rest_of fs)) = Inl e"
proof -
  assume "\<not> list_all payload_decodes fs"
  then obtain f where f: "f \<in> set fs" and n: "\<not> payload_decodes f"
    by (auto simp add: list_all_iff)
  then obtain e where "restoreFile (parsed_file (rest_of f)) = Inl e"
    by (cases "restoreFile (parsed_file (rest_of f))") (auto simp add: payload_decodes_iff)
  moreover have "parsed_file (rest_of f) \<in> set (map parsed_file (map rest_of fs))"
    using f by simp
  ultimately show ?thesis
    unfolding restoredFiles_def JSON_parse.simps sum.case by (rule map_throwing_Inl [rotated])
qed

text \<open>
  Which payloads decode: every record that takes the text branch of the restore, and
  every record \<open>handleFiles\<close> made of a file of at least one byte, if the type has
  no comma and no file is both stored as text and restored as binary.
\<close>

lemma payload_decodes_text:
  assumes "\<not> includes_str (type_pf f) ''pdf''" and "\<not> endsWith (name_pf f) ''.pptx''"
  shows "payload_decodes f"
  using assms by (simp add: payload_decodes_def restoreFile_def parsed_file_def rest_of_def Let_def)

lemma payload_decodes_processed:
  assumes p: "processFile r file = Inr p" and ne: "bytes_file file \<noteq> []"
    and nc: "CHR '','' \<notin> set (type_file file)"
    and tx: "isTextFile file \<longrightarrow>
        \<not> includes_str (type_file file) ''pdf'' \<and> \<not> endsWith (name_file file) ''.pptx''"
  shows "payload_decodes p"
proof (cases "includes_str (type_file file) ''pdf'' \<or> endsWith (name_file file) ''.pptx''")
  case True
  then have "\<not> isTextFile file" using tx by blast
  moreover have "readable_file file"
    using p by (auto simp add: processFile_def file_text_def fileToBase64_def Let_def
        split: if_splits)
  ultimately obtain p' r' where "processFile r file = Inr p'"
    and "restoreFile (parsed_file (rest_of p')) = Inr r'"
    using binary_round_trip [OF _ _ ne nc True, of r] by blast
  then show ?thesis using p by (simp add: payload_decodes_def)
next
  case False
  have "name_pf p = name_file file"
    "type_pf p = (if type_file file = [] then ''application/octet-stream'' else type_file file)"
    using p by (auto simp add: processFile_def Let_def split: sum.splits)
  then have "\<not> includes_str (type_pf p) ''pdf''" "\<not> endsWith (name_pf p) ''.pptx''"
    using False by auto
  then show ?thesis by (rule payload_decodes_text)
qed

text \<open>
  C10, as the code has it. Two records have the same saved form exactly when they
  differ in \<open>url\<close> alone, and the save effect writes the saved forms of the registry.
  When the session of a registry is in the storage and the payload of every record
  decodes, loading the page gives records with the same saved form, so with the same
  summary and the same \<open>isSummarizing\<close>, and no remote call is in flight: a document
  saved while it was being summarized comes back marked as summarizing. When the
  payload of some record does not decode, loading the page gives no record at all.
\<close>

theorem session_keeps_all_but_url:
  "(\<forall>f g. rest_of f = rest_of g \<longleftrightarrow> f\<lparr>url_pf := url_pf g\<rparr> = g)
   \<and> (quota_ok (map rest_of fs) \<longrightarrow>
        (\<exists>store'. save_effect quota_ok \<lparr>files = fs, isRestoring = False\<rparr> store = Inr store'
           \<and> item store' = Some (Serialized (map rest_of fs))))
   \<and> JSON_parse (Serialized (map rest_of fs)) = Inr (map (\<lambda>f. f\<lparr>url_pf := None\<rparr>) fs)
   \<and> (\<forall>saved. item saved = Some (Serialized (map rest_of fs)) \<and> list_all payload_decodes fs \<longrightarrow>
        (\<exists>w. mount quota_ok saved = Inr w
           \<and> map rest_of (files (app w)) = map rest_of fs
           \<and> map isSummarizing_pf (files (app w)) = map isSummarizing_pf fs
           \<and> map summary_pf (files (app w)) = map summary_pf fs
           \<and> inflight w = []))
   \<and> (\<forall>saved. item saved = Some (Serialized (map rest_of fs)) \<and> \<not> list_all payload_decodes fs \<longrightarrow>
        (\<exists>w. mount quota_ok saved = Inr w \<and> files (app w) = [] \<and> inflight w = []))"
proof -
  have d: "\<forall>f g. rest_of f = rest_of g \<longleftrightarrow> f\<lparr>url_pf := url_pf g\<rparr> = g"
    by (intro allI) (rule rest_of_eq_iff)
  have s: "quota_ok (map rest_of fs) \<longrightarrow>
        (\<exists>store'. save_effect quota_ok \<lparr>files = fs, isRestoring = False\<rparr> store = Inr store'
           \<and> item store' = Some (Serialized (map rest_of fs)))"
    by (simp add: save_effect_Inr setItem_def)
  have "parsed_file (rest_of f) = f\<lparr>url_pf := None\<rparr>" for f
    by (cases f) (simp add: parsed_file_def rest_of_def)
  then have j: "JSON_parse (Serialized (map rest_of fs)) = Inr (map (\<lambda>f. f\<lparr>url_pf := None\<rparr>) fs)"
    by simp
  have r: "\<exists>w. mount quota_ok saved = Inr w
           \<and> map rest_of (files (app w)) = map rest_of fs
           \<and> map isSummarizing_pf (files (app w)) = map isSummarizing_pf fs
           \<and> map summary_pf (files (app w)) = map summary_pf fs
           \<and> inflight w = []"
    if i: "item saved = Some (Serialized (map rest_of fs))"
      and ok: "list_all payload_decodes fs" for saved
  proof -
    obtain rs where rs: "restoredFiles (Serialized (map rest_of fs)) = Inr rs"
      using restoredFiles_decodes [OF ok] by blast
    have a: "map rest_of rs = map rest_of fs"
      using rs by (rule restoredFiles_rest_of)
    have "map (isSummarizing_sf \<circ> rest_of) rs = map (isSummarizing_sf \<circ> rest_of) fs"
      "map (summary_sf \<circ> rest_of) rs = map (summary_sf \<circ> rest_of) fs"
      using a by (metis map_map)+
    then have b: "map isSummarizing_pf rs = map isSummarizing_pf fs"
      "map summary_pf rs = map summary_pf fs"
      by (simp_all add: rest_of_def comp_def)
    have c: "\<exists>w. mount quota_ok saved = Inr w \<and> files (app w) = rs \<and> inflight w = []"
      using i rs by (simp add: mount_Inr restore_effect_def)
    show ?thesis using a b c by auto
  qed
  have n: "\<exists>w. mount quota_ok saved = Inr w \<and> files (app w) = [] \<and> inflight w = []"
    if i: "item saved = Some (Serialized (map rest_of fs))"
      and no: "\<not> list_all payload_decodes fs" for saved
  proof -
    obtain e where "restoredFiles (Serialized (map rest_of fs)) = Inl e"
      using restoredFiles_not_decodes [OF no] by blast
    then show ?thesis using i by (simp add: mount_Inr restore_effect_def)
  qed
  show ?thesis using d s j r n by blast
qed

text \<open>
  A session of a document that was being summarized and of a PDF of no bytes: loading
  the page restores neither, and the save effect writes the empty session over it.
\<close>

theorem inflight_session_not_restored:
  "map_sum id (\<lambda>w. (files (app w), item (storage w)))
     (mount (\<lambda>p. True) (session_of [report_md\<lparr>isSummarizing_pf := Some True\<rparr>, blank_pdf]))
     = Inr ([], Some (Serialized []))"
proof -
  have "restoreFile (parsed_file (rest_of blank_pdf)) = Inl InvalidCharacterError"
    by (rule restoreFile_throws [OF _ _ _ atob_empty_data_url])
       (simp_all add: parsed_file_def rest_of_def blank_pdf_def)
  moreover have "\<exists>r. restoreFile (parsed_file (rest_of (report_md\<lparr>isSummarizing_pf := Some True\<rparr>)))
      = Inr r"
    by (simp add: restoreFile_text parsed_file_def rest_of_def report_md_def endsWith_def)
  ultimately have "restoredFiles (Serialized
      (map rest_of [report_md\<lparr>isSummarizing_pf := Some True\<rparr>, blank_pdf]))
     = Inl InvalidCharacterError"
    by (auto simp add: restoredFiles_def)
  then show ?thesis
    by (simp add: mount_Inr restore_effect_def session_of_def setItem_def)
qed

text \<open>The theorem at the session of a document that was being summarized.\<close>

theorem session_keeps_all_but_url_witness:
  "list_all payload_decodes [report_md\<lparr>isSummarizing_pf := Some True\<rparr>]
   \<and> (\<exists>w. mount (\<lambda>p. True) (session_of [report_md\<lparr>isSummarizing_pf := Some True\<rparr>]) = Inr w
     \<and> map isSummarizing_pf (files (app w)) = [Some True] \<and> inflight w = [])"
proof -
  have ok: "list_all payload_decodes [report_md\<lparr>isSummarizing_pf := Some True\<rparr>]"
    by (simp add: payload_decodes_def restoreFile_text parsed_file_def rest_of_def
        report_md_def endsWith_def)
  have i: "item (session_of [report_md\<lparr>isSummarizing_pf := Some True\<rparr>])
     = Some (Serialized (map rest_of [report_md\<lparr>isSummarizing_pf := Some True\<rparr>]))"
    by (simp add: session_of_def)
  have "\<exists>w. mount (\<lambda>p. True) (session_of [report_md\<lparr>isSummarizing_pf := Some True\<rparr>]) = Inr w
           \<and> map isSummarizing_pf (files (app w))
               = map isSummarizing_pf [report_md\<lparr>isSummarizing_pf := Some True\<rparr>]
           \<and> inflight w = []"
    using session_keeps_all_but_url
      [where fs = "[report_md\<lparr>isSummarizing_pf := Some True\<rparr>]"
         and quota_ok = "\<lambda>p. True"] i ok
    by blast
  then show ?thesis using ok by auto
qed

end
